theory Spec2Isabelle
  imports Complex_Main "HOL-Library.AList" "HOL-Library.Sublist"
begin

section \<open>The giveaway bot of \<open>bot.py\<close>\<close>

text \<open>
  A shallow embedding of the command handlers of \<open>bot.py\<close> that read or write the three
  documents of \<open>GiveawayBot\<close>: \<open>codes\<close>, \<open>users\<close> and \<open>banned_users\<close>.

  Conventions of the embedding.
  \<^item> A Python \<open>dict\<close> is an association list in insertion order; \<open>d[k] = v\<close> is
    \<open>AList.update\<close> (in place when the key is present, appended otherwise), \<open>del d[k]\<close> is
    \<open>AList.delete\<close>, \<open>d[k][f] = v\<close> on a present key is \<open>AList.map_entry\<close>, \<open>k in d\<close> is
    \<open>map_of d k \<noteq> None\<close>.
  \<^item> The built-ins \<open>str.upper\<close> and \<open>int\<close> are inputs: the fields \<open>upper\<close> and
    \<open>py_int\<close> of the configuration, so that every statement about a handler holds for
    whatever these built-ins compute, on every string.
  \<^item> \<open>datetime.now()\<close> is an input: a \<open>clock\<close> gives, for each call site of a handler,
    the reading taken there, already formatted as the call site formats it.
  \<^item> \<open>random.choices\<close> is an input: the list of suffixes it draws, in order.
  \<^item> \<open>save_data\<close> appends the file name and the document written to the log
    \<open>disk_writes\<close>; an I/O error inside \<open>save_data\<close> is caught there and changes nothing
    in memory.
  \<^item> A handler returns the reply it sends together with the new state; an exception that
    leaves the handler is the reply \<open>Raised\<close>.
  \<^item> The messages sent to the administrator after a redemption, and the read-only
    handlers other than \<open>stats\<close>, touch no document and are left out.
\<close>

subsection \<open>Data\<close>

text \<open>The \<open>telegram.User\<close> of an update: \<open>user.id\<close> and the optional name fields.\<close>

record identity =
  tg_id :: int
  tg_username :: "string option"
  tg_first_name :: "string option"
  tg_last_name :: "string option"

text \<open>An entry of \<open>users[user_id]['redeemed_codes']\<close>.\<close>

record redemption_record =
  rc_code :: string
  rc_prize :: string
  rc_date :: string

text \<open>A value of \<open>users\<close>.\<close>

record user_rec =
  username :: string
  first_name :: string
  last_name :: string
  join_date :: string
  redeemed_codes :: "redemption_record list"

text \<open>The dictionary stored under \<open>codes[code]['redeemer']\<close>.\<close>

record redeemer_info =
  user_id :: string
  r_username :: string
  r_first_name :: string
  r_last_name :: string
  r_date :: string

text \<open>A value of \<open>codes\<close>; \<open>redeemer\<close> is \<open>None\<close> until the code is redeemed.\<close>

record code_rec =
  prize :: string
  redeemed :: bool
  redeemer :: "redeemer_info option"
  created_date :: string

type_synonym codes_doc = "(string \<times> code_rec) list"
type_synonym users_doc = "(string \<times> user_rec) list"

datatype filename = CODES_FILE | USERS_FILE | BANNED_FILE

datatype document = Codes_doc codes_doc | Users_doc users_doc | Banned_doc "string list"

record state =
  codes :: codes_doc
  users :: users_doc
  banned_users :: "string list"
  disk_writes :: "(filename \<times> document) list"

datatype py_error = ZeroDivisionError | TypeError | KeyError | ValueError

text \<open>
  What the handlers take from outside the file: the environment variable \<open>ADMIN_ID\<close>
  (\<open>main\<close> starts no handler when it is unset or empty, so a handler sees a string), and
  the two built-ins applied to arguments of commands, \<open>s.upper()\<close> and \<open>int(s)\<close>, the
  latter with the exception it raises, if any.
\<close>

record config =
  ADMIN_ID :: string
  upper :: "string \<Rightarrow> string"
  py_int :: "string \<Rightarrow> py_error + int"

type_synonym clock = "nat \<Rightarrow> string"

datatype reply =
    BannedReply
  | Welcome
  | RedeemUsage
  | InvalidCode
  | AlreadyRedeemed string string string
  | RedeemSuccess string string
  | AdminOnly
  | AddcodeUsage
  | DuplicateCode string
  | CodeAdded string
  | AddprizeUsage
  | AddprizeUnknownCode string
  | PrizeSet string string
  | DelcodeUsage
  | UnknownCode string
  | CodeDeleted string
  | GencodeUsage
  | LimitExceeded
  | Generated int "string list"
  | NotAnInteger
  | BanUsage
  | CannotBanSelf
  | UserBanned string
  | AlreadyBanned string
  | InvalidUserId
  | UnbanUsage
  | UserUnbanned string
  | NotBanned string
  | GiveawayReset
  | StatsReply int int int int int int rat
  | Raised py_error

text \<open>
  The replies, by the text the handler sends: \<open>AlreadyRedeemed\<close> carries the
  \<open>first_name\<close>, \<open>username\<close> and \<open>date\<close> of the stored redeemer, which are the fields the
  message prints; \<open>RedeemSuccess\<close> the code and its prize; \<open>Generated\<close> the number given and
  the codes listed; \<open>StatsReply\<close> the six counts and the success rate before formatting.
\<close>

subsection \<open>Python built-ins\<close>

definition digit_char :: "nat \<Rightarrow> char" where
  "digit_char d = ''0123456789'' ! d"

fun str_nat :: "nat \<Rightarrow> string" where
  "str_nat n = (if n < 10 then [digit_char n] else str_nat (n div 10) @ [digit_char (n mod 10)])"

text \<open>\<open>str(i)\<close> for an integer: decimal digits, with a minus sign when negative.\<close>

definition str_int :: "int \<Rightarrow> string" where
  "str_int i = (if i < 0 then CHR ''-'' # str_nat (nat (- i)) else str_nat (nat i))"

text \<open>\<open>str(s)\<close> for a string returns the string; the result type keeps the \<open>try\<close> visible.\<close>

definition str_str :: "string \<Rightarrow> py_error + string" where
  "str_str s = Inr s"

text \<open>\<open>x or 'N/A'\<close>: the default replaces \<open>None\<close> and the empty string.\<close>

definition or_NA :: "string option \<Rightarrow> string" where
  "or_NA x = (case x of None \<Rightarrow> ''N/A'' | Some s \<Rightarrow> if s = [] then ''N/A'' else s)"

subsection \<open>\<open>GiveawayBot\<close>\<close>

text \<open>The state of \<open>GiveawayBot.__init__\<close> when no file exists: the three defaults.\<close>

definition initial_state :: state where
  "initial_state = \<lparr>codes = [], users = [], banned_users = [], disk_writes = []\<rparr>"

definition save_data :: "filename \<Rightarrow> document \<Rightarrow> state \<Rightarrow> state" where
  "save_data f d s = s\<lparr>disk_writes := disk_writes s @ [(f, d)]\<rparr>"

definition is_admin :: "config \<Rightarrow> int \<Rightarrow> bool" where
  "is_admin cfg uid = (str_int uid = ADMIN_ID cfg)"

definition is_banned :: "state \<Rightarrow> int \<Rightarrow> bool" where
  "is_banned s uid = (str_int uid \<in> set (banned_users s))"

definition register_user :: "string \<Rightarrow> identity \<Rightarrow> state \<Rightarrow> state" where
  "register_user now user s =
     (let uid = str_int (tg_id user) in
      if map_of (users s) uid = None then
        (let s1 = s\<lparr>users := AList.update uid
                     \<lparr>username = or_NA (tg_username user),
                      first_name = or_NA (tg_first_name user),
                      last_name = or_NA (tg_last_name user),
                      join_date = now,
                      redeemed_codes = []\<rparr> (users s)\<rparr>
         in save_data USERS_FILE (Users_doc (users s1)) s1)
      else s)"

subsection \<open>User commands\<close>

definition start :: "clock \<Rightarrow> identity \<Rightarrow> state \<Rightarrow> reply \<times> state" where
  "start clk user s =
     (if is_banned s (tg_id user) then (BannedReply, s)
      else (Welcome, register_user (clk 0) user s))"

text \<open>The dictionary \<open>redeem\<close> stores as the redeemer of a code, with the date read.\<close>

definition redeemer_snapshot :: "string \<Rightarrow> identity \<Rightarrow> redeemer_info" where
  "redeemer_snapshot now user =
     \<lparr>user_id = str_int (tg_id user),
      r_username = or_NA (tg_username user),
      r_first_name = or_NA (tg_first_name user),
      r_last_name = or_NA (tg_last_name user),
      r_date = now\<rparr>"

text \<open>
  \<open>redeem\<close>: the clock readings are \<open>clk 0\<close> in \<open>register_user\<close>, \<open>clk 1\<close> for the
  redeemer's date and \<open>clk 2\<close> for the date of the user's record. The code is marked
  before \<open>users[user_id]\<close> is read, as in the source.
\<close>

definition redeem ::
  "config \<Rightarrow> clock \<Rightarrow> identity \<Rightarrow> string list \<Rightarrow> state \<Rightarrow> reply \<times> state" where
  "redeem cfg clk user args s =
     (if is_banned s (tg_id user) then (BannedReply, s)
      else
        let s1 = register_user (clk 0) user s in
        case args of
          [] \<Rightarrow> (RedeemUsage, s1)
        | a # _ \<Rightarrow>
            let code = upper cfg a; uid = str_int (tg_id user) in
            (case map_of (codes s1) code of
               None \<Rightarrow> (InvalidCode, s1)
             | Some c \<Rightarrow>
                 if redeemed c then
                   (case redeemer c of
                      None \<Rightarrow> (Raised TypeError, s1)
                    | Some r \<Rightarrow> (AlreadyRedeemed (r_first_name r) (r_username r) (r_date r), s1))
                 else
                   let s2 = s1\<lparr>codes := AList.map_entry code
                               (\<lambda>c. c\<lparr>redeemed := True,
                                      redeemer := Some (redeemer_snapshot (clk 1) user)\<rparr>)
                               (codes s1)\<rparr>
                   in
                   (case map_of (users s2) uid of
                      None \<Rightarrow> (Raised KeyError, s2)
                    | Some _ \<Rightarrow>
                        let s3 = s2\<lparr>users := AList.map_entry uid
                                    (\<lambda>u. u\<lparr>redeemed_codes := redeemed_codes u @
                                             [\<lparr>rc_code = code, rc_prize = prize c,
                                               rc_date = clk 2\<rparr>]\<rparr>) (users s2)\<rparr>;
                            s4 = save_data CODES_FILE (Codes_doc (codes s3)) s3;
                            s5 = save_data USERS_FILE (Users_doc (users s4)) s4
                        in (RedeemSuccess code (prize c), s5))))"

subsection \<open>Administrator commands\<close>

text \<open>
  \<open>stats\<close>: the f-string evaluates \<open>redeemed_codes/total_codes*100\<close> whatever
  \<open>total_codes\<close> is; the words \<open>if total_codes > 0 else 0%\<close> are text of the message. The
  rate is the exact quotient; its formatting to one decimal is not modelled.
\<close>

definition stats :: "config \<Rightarrow> identity \<Rightarrow> state \<Rightarrow> reply \<times> state" where
  "stats cfg caller s =
     (if \<not> is_admin cfg (tg_id caller) then (AdminOnly, s)
      else
        let total_codes = int (length (codes s));
            redeemed_count = int (length (filter (\<lambda>c. redeemed c) (map snd (codes s))));
            total_users = int (length (users s));
            banned_count = int (length (banned_users s))
        in if total_codes = 0 then (Raised ZeroDivisionError, s)
           else (StatsReply total_codes redeemed_count (total_codes - redeemed_count)
                   total_users banned_count (total_users - banned_count)
                   (of_int redeemed_count / of_int total_codes * 100), s))"

definition new_code :: "string \<Rightarrow> code_rec" where
  "new_code now = \<lparr>prize = ''No prize set'', redeemed = False, redeemer = None,
                    created_date = now\<rparr>"

definition addcode :: "config \<Rightarrow> clock \<Rightarrow> identity \<Rightarrow> string list \<Rightarrow> state \<Rightarrow> reply \<times> state" where
  "addcode cfg clk caller args s =
     (if \<not> is_admin cfg (tg_id caller) then (AdminOnly, s)
      else case args of
        [] \<Rightarrow> (AddcodeUsage, s)
      | a # _ \<Rightarrow>
          let code = upper cfg a in
          if map_of (codes s) code \<noteq> None then (DuplicateCode code, s)
          else
            let s1 = s\<lparr>codes := AList.update code (new_code (clk 0)) (codes s)\<rparr>
            in (CodeAdded code, save_data CODES_FILE (Codes_doc (codes s1)) s1))"

text \<open>\<open>' '.join(args)\<close>.\<close>

fun join_spaces :: "string list \<Rightarrow> string" where
  "join_spaces [] = []"
| "join_spaces [x] = x"
| "join_spaces (x # y # ys) = x @ '' '' @ join_spaces (y # ys)"

definition addprize :: "config \<Rightarrow> identity \<Rightarrow> string list \<Rightarrow> state \<Rightarrow> reply \<times> state" where
  "addprize cfg caller args s =
     (if \<not> is_admin cfg (tg_id caller) then (AdminOnly, s)
      else if length args < 2 then (AddprizeUsage, s)
      else
        let code = upper cfg (hd args); p = join_spaces (tl args) in
        if map_of (codes s) code = None then (AddprizeUnknownCode code, s)
        else
          let s1 = s\<lparr>codes := AList.map_entry code (\<lambda>c. c\<lparr>prize := p\<rparr>) (codes s)\<rparr>
          in (PrizeSet code p, save_data CODES_FILE (Codes_doc (codes s1)) s1))"

definition delcode :: "config \<Rightarrow> identity \<Rightarrow> string list \<Rightarrow> state \<Rightarrow> reply \<times> state" where
  "delcode cfg caller args s =
     (if \<not> is_admin cfg (tg_id caller) then (AdminOnly, s)
      else case args of
        [] \<Rightarrow> (DelcodeUsage, s)
      | a # _ \<Rightarrow>
          let code = upper cfg a in
          if map_of (codes s) code = None then (UnknownCode code, s)
          else
            let s1 = s\<lparr>codes := AList.delete code (codes s)\<rparr>
            in (CodeDeleted code, save_data CODES_FILE (Codes_doc (codes s1)) s1))"

text \<open>
  The \<open>while True\<close> loop of \<open>gencode\<close>: it takes suffixes from the draws until
  \<open>prefix + suffix\<close> is not a key, and returns that code with the draws left. The loop has
  no bound in the source; \<open>None\<close> says that it did not end on the draws given.
\<close>

fun draw_code :: "string \<Rightarrow> codes_doc \<Rightarrow> string list \<Rightarrow> (string \<times> string list) option" where
  "draw_code pre cs [] = None"
| "draw_code pre cs (sfx # ds) =
     (let code = pre @ sfx in
      if map_of cs code = None then Some (code, ds) else draw_code pre cs ds)"

text \<open>
  The \<open>for _ in range(num)\<close> loop, with the iterations left, the codes so far, the
  codes generated so far and the draws left; iteration \<open>i\<close> reads the clock at \<open>clk i\<close>.
\<close>

fun gen_loop ::
  "nat \<Rightarrow> string \<Rightarrow> clock \<Rightarrow> codes_doc \<Rightarrow> string list \<Rightarrow> string list \<Rightarrow>
     (codes_doc \<times> string list) option" where
  "gen_loop 0 pre clk cs generated ds = Some (cs, generated)"
| "gen_loop (Suc k) pre clk cs generated ds =
     (case draw_code pre cs ds of
        None \<Rightarrow> None
      | Some (code, ds') \<Rightarrow>
          gen_loop k pre clk (AList.update code (new_code (clk (length generated))) cs)
            (generated @ [code]) ds')"

text \<open>
  \<open>gencode\<close>: the \<open>try\<close> covers the body from \<open>int(context.args[0])\<close> on; its
  \<open>except ValueError\<close> answers that the number must be an integer, and any other
  exception of \<open>int\<close> leaves the handler.
\<close>

definition gencode ::
  "config \<Rightarrow> clock \<Rightarrow> string list \<Rightarrow> identity \<Rightarrow> string list \<Rightarrow> state \<Rightarrow>
     (reply \<times> state) option" where
  "gencode cfg clk draws caller args s =
     (if \<not> is_admin cfg (tg_id caller) then Some (AdminOnly, s)
      else if length args < 2 then Some (GencodeUsage, s)
      else case py_int cfg (args ! 0) of
        Inl e \<Rightarrow> if e = ValueError then Some (NotAnInteger, s) else Some (Raised e, s)
      | Inr num \<Rightarrow>
          let pre = upper cfg (args ! 1) in
          if num > 50 then Some (LimitExceeded, s)
          else case gen_loop (nat num) pre clk (codes s) [] draws of
            None \<Rightarrow> None
          | Some (cs, generated_codes) \<Rightarrow>
              let s1 = s\<lparr>codes := cs\<rparr>
              in Some (Generated num generated_codes,
                       save_data CODES_FILE (Codes_doc (codes s1)) s1))"

text \<open>
  \<open>ban_user\<close>: the \<open>try\<close> covers \<open>str(context.args[0])\<close> and the rest of the body; its
  \<open>except ValueError\<close> answers "Invalid user ID!".
\<close>

definition ban_user :: "config \<Rightarrow> identity \<Rightarrow> string list \<Rightarrow> state \<Rightarrow> reply \<times> state" where
  "ban_user cfg caller args s =
     (if \<not> is_admin cfg (tg_id caller) then (AdminOnly, s)
      else case args of
        [] \<Rightarrow> (BanUsage, s)
      | a # _ \<Rightarrow>
          (case str_str a of
             Inl e \<Rightarrow> (if e = ValueError then (InvalidUserId, s) else (Raised e, s))
           | Inr uid \<Rightarrow>
               if uid = ADMIN_ID cfg then (CannotBanSelf, s)
               else if uid \<notin> set (banned_users s) then
                 let s1 = s\<lparr>banned_users := banned_users s @ [uid]\<rparr>
                 in (UserBanned uid, save_data BANNED_FILE (Banned_doc (banned_users s1)) s1)
               else (AlreadyBanned uid, s)))"

definition unban_user :: "config \<Rightarrow> identity \<Rightarrow> string list \<Rightarrow> state \<Rightarrow> reply \<times> state" where
  "unban_user cfg caller args s =
     (if \<not> is_admin cfg (tg_id caller) then (AdminOnly, s)
      else case args of
        [] \<Rightarrow> (UnbanUsage, s)
      | a # _ \<Rightarrow>
          (case str_str a of
             Inl e \<Rightarrow> (if e = ValueError then (InvalidUserId, s) else (Raised e, s))
           | Inr uid \<Rightarrow>
               if uid \<in> set (banned_users s) then
                 let s1 = s\<lparr>banned_users := remove1 uid (banned_users s)\<rparr>
                 in (UserUnbanned uid, save_data BANNED_FILE (Banned_doc (banned_users s1)) s1)
               else (NotBanned uid, s)))"

definition resetgiveaway :: "config \<Rightarrow> identity \<Rightarrow> state \<Rightarrow> reply \<times> state" where
  "resetgiveaway cfg caller s =
     (if \<not> is_admin cfg (tg_id caller) then (AdminOnly, s)
      else
        let s1 = s\<lparr>codes := map (\<lambda>(k, c). (k, c\<lparr>redeemed := False, redeemer := None\<rparr>)) (codes s)\<rparr>;
            s2 = s1\<lparr>users := map (\<lambda>(k, u). (k, u\<lparr>redeemed_codes := []\<rparr>)) (users s1)\<rparr>;
            s3 = save_data CODES_FILE (Codes_doc (codes s2)) s2;
            s4 = save_data USERS_FILE (Users_doc (users s3)) s3
        in (GiveawayReset, s4))"

subsection \<open>Sequences of commands\<close>

text \<open>
  One update of the chat: the command with what the handler reads from its environment.
  The handlers run one after the other; a \<open>gencode\<close> whose loop does not end stops the
  sequence.
\<close>

datatype command =
    Start clock identity
  | Redeem clock identity "string list"
  | Stats identity
  | Addcode clock identity "string list"
  | Addprize identity "string list"
  | Delcode identity "string list"
  | Gencode clock "string list" identity "string list"
  | Ban identity "string list"
  | Unban identity "string list"
  | Resetgiveaway identity

fun step :: "config \<Rightarrow> command \<Rightarrow> state \<Rightarrow> (reply \<times> state) option" where
  "step cfg (Start clk u) s = Some (start clk u s)"
| "step cfg (Redeem clk u args) s = Some (redeem cfg clk u args s)"
| "step cfg (Stats u) s = Some (stats cfg u s)"
| "step cfg (Addcode clk u args) s = Some (addcode cfg clk u args s)"
| "step cfg (Addprize u args) s = Some (addprize cfg u args s)"
| "step cfg (Delcode u args) s = Some (delcode cfg u args s)"
| "step cfg (Gencode clk draws u args) s = gencode cfg clk draws u args s"
| "step cfg (Ban u args) s = Some (ban_user cfg u args s)"
| "step cfg (Unban u args) s = Some (unban_user cfg u args s)"
| "step cfg (Resetgiveaway u) s = Some (resetgiveaway cfg u s)"

fun run :: "config \<Rightarrow> command list \<Rightarrow> state \<Rightarrow> state option" where
  "run cfg [] s = Some s"
| "run cfg (c # cs) s =
     (case step cfg c s of None \<Rightarrow> None | Some (_, s') \<Rightarrow> run cfg cs s')"

subsection \<open>Observations\<close>

text \<open>Code \<open>k\<close> is stored as redeemed with redeemer \<open>r\<close>.\<close>

definition claimed :: "state \<Rightarrow> string \<Rightarrow> redeemer_info \<Rightarrow> bool" where
  "claimed s k r =
     (case map_of (codes s) k of None \<Rightarrow> False | Some c \<Rightarrow> redeemed c \<and> redeemer c = Some r)"

text \<open>
  The number of different suffixes among the draws that give a key not stored yet: the
  draws on which the retry loop of \<open>gencode\<close> can stop.
\<close>

definition fresh_count :: "string \<Rightarrow> codes_doc \<Rightarrow> string list \<Rightarrow> nat" where
  "fresh_count pre cs ds = length (remdups (filter (\<lambda>d. map_of cs (pre @ d) = None) ds))"

text \<open>The number of codes whose redeemer has user id \<open>uid\<close>.\<close>

definition redeemed_by :: "codes_doc \<Rightarrow> string \<Rightarrow> nat" where
  "redeemed_by cs uid =
     length (filter (\<lambda>(k, c). case redeemer c of None \<Rightarrow> False | Some r \<Rightarrow> user_id r = uid) cs)"

text \<open>
  The two documents agree: keys occur once (they are dictionaries), a code is marked
  redeemed exactly when it has a redeemer, every redeemer is a stored user, and every
  user has as many records as there are codes redeemed by that user.
\<close>

definition consistent :: "state \<Rightarrow> bool" where
  "consistent s =
     (distinct (map fst (codes s)) \<and> distinct (map fst (users s)) \<and>
      list_all (\<lambda>(k, c). redeemed c = (redeemer c \<noteq> None) \<and>
                  (case redeemer c of None \<Rightarrow> True
                   | Some r \<Rightarrow> map_of (users s) (user_id r) \<noteq> None)) (codes s) \<and>
      list_all (\<lambda>(uid, u). length (redeemed_codes u) = redeemed_by (codes s) uid) (users s))"

text \<open>The command is a \<open>delcode\<close> that removes a code marked redeemed.\<close>

fun deletes_redeemed :: "config \<Rightarrow> command \<Rightarrow> state \<Rightarrow> bool" where
  "deletes_redeemed cfg (Delcode u args) s =
     (is_admin cfg (tg_id u) \<and>
      (case args of
         [] \<Rightarrow> False
       | a # _ \<Rightarrow> (case map_of (codes s) (upper cfg a) of None \<Rightarrow> False | Some c \<Rightarrow> redeemed c)))"
| "deletes_redeemed cfg c s = False"

text \<open>No command of the sequence, run from \<open>s\<close>, deletes a redeemed code.\<close>

fun spares_redeemed :: "config \<Rightarrow> command list \<Rightarrow> state \<Rightarrow> bool" where
  "spares_redeemed cfg [] s = True"
| "spares_redeemed cfg (c # cs) s =
     (\<not> deletes_redeemed cfg c s \<and>
      (case step cfg c s of None \<Rightarrow> True | Some (_, s') \<Rightarrow> spares_redeemed cfg cs s'))"

text \<open>The commands that neither delete a code nor reset the giveaway.\<close>

fun keeps_claims :: "command \<Rightarrow> bool" where
  "keeps_claims (Delcode u args) = False"
| "keeps_claims (Resetgiveaway u) = False"
| "keeps_claims c = True"

text \<open>
  The state in which a successful \<open>redeem\<close> of the stored code \<open>k\<close> with value \<open>c\<close> ends,
  written out: the user registered, the code marked, the record appended, both files
  written.
\<close>

definition redeemed_state :: "clock \<Rightarrow> identity \<Rightarrow> string \<Rightarrow> code_rec \<Rightarrow> state \<Rightarrow> state" where
  "redeemed_state clk u k c s =
     (let s1 = register_user (clk 0) u s;
          cs = AList.map_entry k
                 (\<lambda>c. c\<lparr>redeemed := True, redeemer := Some (redeemer_snapshot (clk 1) u)\<rparr>)
                 (codes s);
          us = AList.map_entry (str_int (tg_id u))
                 (\<lambda>r. r\<lparr>redeemed_codes := redeemed_codes r @
                          [\<lparr>rc_code = k, rc_prize = prize c, rc_date = clk 2\<rparr>]\<rparr>) (users s1)
      in s1\<lparr>codes := cs, users := us,
            disk_writes := disk_writes s1 @ [(CODES_FILE, Codes_doc cs), (USERS_FILE, Users_doc us)]\<rparr>)"

subsection \<open>Example inputs\<close>

text \<open>
  The examples need values of the two built-ins on the strings they use. The two
  functions below agree with \<open>str.upper\<close> and \<open>int\<close> on strings of ASCII characters
  without white space, which are the only ones in the examples: there \<open>str.upper\<close> maps
  the letters a to z to A to Z and leaves the rest, and \<open>int\<close> reads a decimal literal. On
  other strings they are not Python's built-ins; no statement about a handler depends on
  them, since the theorems are stated for every configuration.
\<close>

definition ascii_upper_char :: "char \<Rightarrow> char" where
  "ascii_upper_char c =
     (let n = (of_char c :: nat) in if 97 \<le> n \<and> n \<le> 122 then char_of (n - 32) else c)"

definition ascii_upper :: "string \<Rightarrow> string" where
  "ascii_upper s = map ascii_upper_char s"

definition digit_val :: "char \<Rightarrow> nat option" where
  "digit_val c =
     (let n = (of_char c :: nat) in if 48 \<le> n \<and> n \<le> 57 then Some (n - 48) else None)"

text \<open>
  The digits of a decimal literal, most significant first: \<open>None\<close> where Python raises
  \<open>ValueError\<close>. A single underscore is allowed between two digits. The flag says
  whether the previous character was a digit.
\<close>

fun digits_val :: "bool \<Rightarrow> nat \<Rightarrow> string \<Rightarrow> nat option" where
  "digits_val prev acc [] = (if prev then Some acc else None)"
| "digits_val prev acc (c # cs) =
     (if c = CHR ''_'' then (if prev then digits_val False acc cs else None)
      else case digit_val c of
             None \<Rightarrow> None
           | Some d \<Rightarrow> digits_val True (10 * acc + d) cs)"

text \<open>
  \<open>int(s)\<close> for a string of ASCII characters without white space: an optional sign, then
  digits.
\<close>

definition ascii_int :: "string \<Rightarrow> py_error + int" where
  "ascii_int s =
     (case s of
        [] \<Rightarrow> Inl ValueError
      | c # cs \<Rightarrow>
          if c = CHR ''-'' then
            (case digits_val False 0 cs of None \<Rightarrow> Inl ValueError | Some n \<Rightarrow> Inr (- int n))
          else if c = CHR ''+'' then
            (case digits_val False 0 cs of None \<Rightarrow> Inl ValueError | Some n \<Rightarrow> Inr (int n))
          else
            (case digits_val False 0 s of None \<Rightarrow> Inl ValueError | Some n \<Rightarrow> Inr (int n)))"

definition example_cfg :: config where
  "example_cfg = \<lparr>ADMIN_ID = ''1'', upper = ascii_upper, py_int = ascii_int\<rparr>"

definition admin_user :: identity where
  "admin_user = \<lparr>tg_id = 1, tg_username = Some ''alwayszihan'', tg_first_name = Some ''Zihan'',
                  tg_last_name = None\<rparr>"

definition user42 :: identity where
  "user42 = \<lparr>tg_id = 42, tg_username = Some ''ann'', tg_first_name = Some ''Ann'',
              tg_last_name = None\<rparr>"

definition user43 :: identity where
  "user43 = \<lparr>tg_id = 43, tg_username = None, tg_first_name = Some ''Bob'',
              tg_last_name = Some ''Ray''\<rparr>"

definition example_clock :: clock where
  "example_clock i = (if i = 0 then ''t0'' else if i = 1 then ''t1'' else ''t2'')"

text \<open>The administrator adds a code, user 42 redeems it, then others act.\<close>

definition state_with_code :: state where
  "state_with_code = snd (addcode example_cfg example_clock admin_user [''abc123''] initial_state)"

definition state_redeemed :: state where
  "state_redeemed = snd (redeem example_cfg example_clock user42 [''abc123''] state_with_code)"

text \<open>Code \<open>ABC123\<close> created with prize "iPhone 15", never redeemed.\<close>

definition state_iphone :: state where
  "state_iphone =
     snd (addprize example_cfg admin_user [''ABC123'', ''iPhone'', ''15'']
            (snd (addcode example_cfg example_clock admin_user [''ABC123''] initial_state)))"

text \<open>The administrator deletes the code user 42 has redeemed.\<close>

definition state_deleted :: state where
  "state_deleted = snd (delcode example_cfg admin_user [''ABC123''] state_redeemed)"

text \<open>A longer session: codes added, generated, redeemed, and an unredeemed one deleted.\<close>

definition example_run :: "command list" where
  "example_run =
     [Addcode example_clock admin_user [''abc123''],
      Addcode example_clock admin_user [''spare''],
      Redeem example_clock user42 [''abc123''],
      Redeem example_clock user43 [''ABC123''],
      Gencode example_clock [''AAAA'', ''AAAA'', ''BBBB''] admin_user [''2'', ''gift''],
      Redeem example_clock user43 [''giftbbbb''],
      Delcode admin_user [''SPARE''],
      Addprize admin_user [''abc123'', ''Car'']]"

definition state_after_run :: state where
  "state_after_run =
     (case run example_cfg example_run initial_state of None \<Rightarrow> initial_state | Some s \<Rightarrow> s)"

definition state_later :: state where
  "state_later =
     snd (addprize example_cfg admin_user [''abc123'', ''Car'']
            (snd (redeem example_cfg example_clock user43 [''ABC123''] state_redeemed)))"

section \<open>Properties\<close>

subsection \<open>What each handler leaves alone\<close>

lemma register_user_frame:
  "codes (register_user now u s) = codes s"
  "banned_users (register_user now u s) = banned_users s"
  by (simp_all add: register_user_def Let_def save_data_def)

lemma register_user_present:
  "\<exists>u. map_of (users (register_user now user s)) (str_int (tg_id user)) = Some u"
  by (cases "map_of (users s) (str_int (tg_id user))")
     (simp_all add: register_user_def Let_def save_data_def update_conv')

lemma register_user_known:
  "map_of (users s) (str_int (tg_id user)) = Some u \<Longrightarrow> register_user now user s = s"
  by (simp add: register_user_def Let_def)

lemma start_banned: "banned_users (snd (start clk u s)) = banned_users s"
  by (simp add: start_def register_user_frame)

lemma redeem_banned: "banned_users (snd (redeem cfg clk u args s)) = banned_users s"
  by (simp add: redeem_def Let_def save_data_def register_user_frame
      split: list.split option.split)

lemma stats_state: "snd (stats cfg u s) = s"
  by (simp add: stats_def Let_def)

lemma addcode_banned: "banned_users (snd (addcode cfg clk u args s)) = banned_users s"
  by (simp add: addcode_def Let_def save_data_def split: list.split)

lemma addprize_banned: "banned_users (snd (addprize cfg u args s)) = banned_users s"
  by (simp add: addprize_def Let_def save_data_def)

lemma delcode_banned: "banned_users (snd (delcode cfg u args s)) = banned_users s"
  by (simp add: delcode_def Let_def save_data_def split: list.split)

lemma gencode_banned:
  "gencode cfg clk ds u args s = Some (r, s') \<Longrightarrow> banned_users s' = banned_users s"
  by (auto simp: gencode_def Let_def save_data_def split: if_splits sum.splits option.splits)

lemma resetgiveaway_banned: "banned_users (snd (resetgiveaway cfg u s)) = banned_users s"
  by (simp add: resetgiveaway_def Let_def save_data_def)

lemma ban_user_admin:
  "ADMIN_ID cfg \<notin> set (banned_users s) \<Longrightarrow>
   ADMIN_ID cfg \<notin> set (banned_users (snd (ban_user cfg u args s)))"
  by (simp add: ban_user_def Let_def save_data_def str_str_def split: list.split)

lemma unban_user_admin:
  "ADMIN_ID cfg \<notin> set (banned_users s) \<Longrightarrow>
   ADMIN_ID cfg \<notin> set (banned_users (snd (unban_user cfg u args s)))"
  by (auto simp: unban_user_def Let_def save_data_def str_str_def split: list.split
      dest: notin_set_remove1)

lemma step_admin_not_banned:
  assumes "step cfg c s = Some (r, s')" and "ADMIN_ID cfg \<notin> set (banned_users s)"
  shows "ADMIN_ID cfg \<notin> set (banned_users s')"
proof (cases c)
  case (Start clk u)
  with assms start_banned [of clk u s] show ?thesis by auto
next
  case (Redeem clk u args)
  with assms redeem_banned [of cfg clk u args s] show ?thesis by auto
next
  case (Stats u)
  with assms stats_state [of cfg u s] show ?thesis by auto
next
  case (Addcode clk u args)
  with assms addcode_banned [of cfg clk u args s] show ?thesis by auto
next
  case (Addprize u args)
  with assms addprize_banned [of cfg u args s] show ?thesis by auto
next
  case (Delcode u args)
  with assms delcode_banned [of cfg u args s] show ?thesis by auto
next
  case (Gencode clk ds u args)
  with assms gencode_banned [of cfg clk ds u args s r s'] show ?thesis by auto
next
  case (Ban u args)
  with assms ban_user_admin [of cfg s u args] show ?thesis by auto
next
  case (Unban u args)
  with assms unban_user_admin [of cfg s u args] show ?thesis by auto
next
  case (Resetgiveaway u)
  with assms resetgiveaway_banned [of cfg u s] show ?thesis by auto
qed

text \<open>A property that every step keeps holds after every sequence that ends.\<close>

lemma run_invariant:
  assumes pres: "\<And>c s r s'. P s \<Longrightarrow> step cfg c s = Some (r, s') \<Longrightarrow> P s'"
  shows "P s \<Longrightarrow> run cfg cs s = Some s' \<Longrightarrow> P s'"
proof (induction cs arbitrary: s)
  case Nil
  then show ?case by simp
next
  case (Cons c cs)
  from Cons.prems(2) obtain r s1 where st: "step cfg c s = Some (r, s1)"
    and rest: "run cfg cs s1 = Some s'"
    by (auto split: option.splits)
  from pres [OF Cons.prems(1) st] have "P s1" .
  with rest show ?case by (rule Cons.IH [rotated])
qed

subsection \<open>Statistics\<close>

text \<open>For the administrator: no code, no statistics; with codes, the exact quotient.\<close>

lemma stats_empty:
  "is_admin cfg (tg_id caller) \<Longrightarrow> codes s = [] \<Longrightarrow>
   stats cfg caller s = (Raised ZeroDivisionError, s)"
  by (simp add: stats_def)

lemma stats_nonempty:
  "is_admin cfg (tg_id caller) \<Longrightarrow> codes s \<noteq> [] \<Longrightarrow>
   \<exists>t r a u b v. fst (stats cfg caller s) = StatsReply t r a u b v (of_int r / of_int t * 100) \<and>
     t = int (length (codes s)) \<and>
     r = int (length (filter (\<lambda>c. redeemed c) (map snd (codes s))))"
  by (simp add: stats_def Let_def)

text \<open>
  Claim C3. With no code stored, \<open>stats\<close> should answer with a success rate of 0. The
  handler divides by the number of codes before anything else: for the administrator and
  the empty documents it ends in \<open>ZeroDivisionError\<close> and sends no statistics.
\<close>

theorem stats_no_codes_raises:
  "stats example_cfg admin_user initial_state = (Raised ZeroDivisionError, initial_state)"
  by code_simp

subsection \<open>The banned list\<close>

text \<open>
  Claim C7. When the administrator bans the configured administrator id, the answer is
  \<open>CannotBanSelf\<close> and the state is the one before. Hence, starting where the
  administrator id is not in the banned list, it is in the banned list after no sequence
  of commands, and no administrator is ever treated as banned.
\<close>

theorem admin_never_banned:
  "(is_admin cfg (tg_id caller) \<longrightarrow>
      ban_user cfg caller (ADMIN_ID cfg # rest) s = (CannotBanSelf, s)) \<and>
   (ADMIN_ID cfg \<notin> set (banned_users s) \<and> run cfg cmds s = Some s' \<longrightarrow>
      ADMIN_ID cfg \<notin> set (banned_users s') \<and>
      (\<forall>uid. is_admin cfg uid \<longrightarrow> \<not> is_banned s' uid))"
proof -
  have "is_admin cfg (tg_id caller) \<longrightarrow>
      ban_user cfg caller (ADMIN_ID cfg # rest) s = (CannotBanSelf, s)"
    by (simp add: ban_user_def str_str_def)
  moreover have "ADMIN_ID cfg \<notin> set (banned_users s')"
    if "ADMIN_ID cfg \<notin> set (banned_users s)" and "run cfg cmds s = Some s'"
    using run_invariant [where P = "\<lambda>s. ADMIN_ID cfg \<notin> set (banned_users s)"
        and cfg = cfg and s = s and cs = cmds and s' = s'] step_admin_not_banned that
    by blast
  ultimately show ?thesis
    by (auto simp: is_admin_def is_banned_def)
qed

theorem admin_never_banned_witness:
  "is_admin example_cfg (tg_id admin_user) \<and>
   ban_user example_cfg admin_user [''1''] initial_state = (CannotBanSelf, initial_state) \<and>
   ADMIN_ID example_cfg \<notin> set (banned_users initial_state) \<and>
   run example_cfg [Ban admin_user [''1''], Ban admin_user [''7''], Unban admin_user [''1'']]
     initial_state =
     Some \<lparr>codes = [], users = [], banned_users = [''7''],
           disk_writes = [(BANNED_FILE, Banned_doc [''7''])]\<rparr> \<and>
   ADMIN_ID example_cfg \<notin> set [''7''] \<and> \<not> is_banned
     \<lparr>codes = [], users = [], banned_users = [''7''],
      disk_writes = [(BANNED_FILE, Banned_doc [''7''])]\<rparr> 1"
proof -
  have adm: "is_admin example_cfg (tg_id admin_user)"
    by code_simp
  have start: "ADMIN_ID example_cfg \<notin> set (banned_users initial_state)"
    by code_simp
  have ran: "run example_cfg
      [Ban admin_user [''1''], Ban admin_user [''7''], Unban admin_user [''1'']] initial_state =
     Some \<lparr>codes = [], users = [], banned_users = [''7''],
           disk_writes = [(BANNED_FILE, Banned_doc [''7''])]\<rparr>"
    by code_simp
  have one: "ADMIN_ID example_cfg = ''1''" "tg_id admin_user = 1"
    by (simp_all add: example_cfg_def admin_user_def)
  from admin_never_banned [of example_cfg admin_user "[]" initial_state
      "[Ban admin_user [''1''], Ban admin_user [''7''], Unban admin_user [''1'']]"
      "\<lparr>codes = [], users = [], banned_users = [''7''],
        disk_writes = [(BANNED_FILE, Banned_doc [''7''])]\<rparr>"] adm start ran one
  show ?thesis by simp
qed

text \<open>
  Claim C10. \<open>str\<close> of the argument of \<open>ban_user\<close> is the argument and raises nothing, so
  \<open>ban_user\<close> never answers "Invalid user ID!". For the administrator, an argument other
  than the administrator id, numeric or not, is appended as it is to the banned list
  (and written to the file) unless it is there already; either way it is in the banned
  list afterwards.
\<close>

theorem ban_user_never_invalid:
  "str_str a = Inr a \<and>
   fst (ban_user cfg caller args s) \<noteq> InvalidUserId \<and>
   (is_admin cfg (tg_id caller) \<and> a \<noteq> ADMIN_ID cfg \<longrightarrow>
      ban_user cfg caller (a # rest) s =
        (if a \<in> set (banned_users s) then (AlreadyBanned a, s)
         else (UserBanned a,
               s\<lparr>banned_users := banned_users s @ [a],
                 disk_writes := disk_writes s @ [(BANNED_FILE, Banned_doc (banned_users s @ [a]))]\<rparr>)) \<and>
      a \<in> set (banned_users (snd (ban_user cfg caller (a # rest) s))))"
  by (simp add: ban_user_def str_str_def Let_def save_data_def split: list.split)

theorem ban_user_never_invalid_witness:
  "is_admin example_cfg (tg_id admin_user) \<and> ''not-a-number'' \<noteq> ADMIN_ID example_cfg \<and>
   ban_user example_cfg admin_user [''not-a-number''] initial_state =
     (UserBanned ''not-a-number'',
      \<lparr>codes = [], users = [], banned_users = [''not-a-number''],
       disk_writes = [(BANNED_FILE, Banned_doc [''not-a-number''])]\<rparr>)"
proof -
  have adm: "is_admin example_cfg (tg_id admin_user)"
    by code_simp
  have other: "''not-a-number'' \<noteq> ADMIN_ID example_cfg"
    by (simp add: example_cfg_def)
  from ban_user_never_invalid [of "''not-a-number''" example_cfg admin_user "[]" initial_state "[]"]
    adm other
  show ?thesis by (simp add: initial_state_def)
qed

subsection \<open>Registration\<close>

text \<open>
  Claim C8. \<open>register_user\<close> is idempotent: a second call for the same id, whatever the
  names and the time of that call, returns the state of the first call unchanged, so the
  stored record keeps its join date, history and names and nothing is written. The first
  call writes the users document once when it inserts, and nothing when the id was there.
\<close>

theorem register_user_idempotent:
  "tg_id user' = tg_id user \<Longrightarrow>
   register_user now' user' (register_user now user s) = register_user now user s \<and>
   disk_writes (register_user now user s) =
     (if map_of (users s) (str_int (tg_id user)) = None
      then disk_writes s @ [(USERS_FILE, Users_doc (users (register_user now user s)))]
      else disk_writes s)"
proof -
  assume same: "tg_id user' = tg_id user"
  obtain u where "map_of (users (register_user now user s)) (str_int (tg_id user')) = Some u"
    using register_user_present [of now user s] same by auto
  then have "register_user now' user' (register_user now user s) = register_user now user s"
    by (rule register_user_known)
  moreover have "disk_writes (register_user now user s) =
     (if map_of (users s) (str_int (tg_id user)) = None
      then disk_writes s @ [(USERS_FILE, Users_doc (users (register_user now user s)))]
      else disk_writes s)"
    by (simp add: register_user_def Let_def save_data_def)
  ultimately show ?thesis by simp
qed

theorem register_user_idempotent_witness:
  "tg_id (user42\<lparr>tg_username := Some ''other'', tg_first_name := None\<rparr>) = tg_id user42 \<and>
   register_user ''t0'' user42 initial_state =
     \<lparr>codes = [],
      users = [(''42'', \<lparr>username = ''ann'', first_name = ''Ann'', last_name = ''N/A'',
                          join_date = ''t0'', redeemed_codes = []\<rparr>)],
      banned_users = [],
      disk_writes = [(USERS_FILE, Users_doc
         [(''42'', \<lparr>username = ''ann'', first_name = ''Ann'', last_name = ''N/A'',
                     join_date = ''t0'', redeemed_codes = []\<rparr>)])]\<rparr> \<and>
   register_user ''t9'' (user42\<lparr>tg_username := Some ''other'', tg_first_name := None\<rparr>)
     (register_user ''t0'' user42 initial_state) = register_user ''t0'' user42 initial_state"
proof -
  have same: "tg_id (user42\<lparr>tg_username := Some ''other'', tg_first_name := None\<rparr>) = tg_id user42"
    by simp
  have first: "register_user ''t0'' user42 initial_state =
     \<lparr>codes = [],
      users = [(''42'', \<lparr>username = ''ann'', first_name = ''Ann'', last_name = ''N/A'',
                          join_date = ''t0'', redeemed_codes = []\<rparr>)],
      banned_users = [],
      disk_writes = [(USERS_FILE, Users_doc
         [(''42'', \<lparr>username = ''ann'', first_name = ''Ann'', last_name = ''N/A'',
                     join_date = ''t0'', redeemed_codes = []\<rparr>)])]\<rparr>"
    by code_simp
  from register_user_idempotent [OF same, of "''t9''" "''t0''" initial_state]
  have "register_user ''t9'' (user42\<lparr>tg_username := Some ''other'', tg_first_name := None\<rparr>)
     (register_user ''t0'' user42 initial_state) = register_user ''t0'' user42 initial_state"
    by (rule conjunct1)
  with same first show ?thesis by (intro conjI)
qed

subsection \<open>The outcomes of a redemption\<close>

lemma update_absent: "map_of al k = None \<Longrightarrow> AList.update k v al = al @ [(k, v)]"
  by (induction al) (auto split: if_splits)

lemma register_user_users:
  "users (register_user now u s) =
     (if map_of (users s) (str_int (tg_id u)) = None
      then users s @ [(str_int (tg_id u),
             \<lparr>username = or_NA (tg_username u), first_name = or_NA (tg_first_name u),
              last_name = or_NA (tg_last_name u), join_date = now, redeemed_codes = []\<rparr>)]
      else users s)"
  by (simp add: register_user_def Let_def save_data_def update_absent)

lemma redeem_when_banned:
  "is_banned s (tg_id u) \<Longrightarrow> redeem cfg clk u args s = (BannedReply, s)"
  by (simp add: redeem_def)

lemma redeem_no_args:
  "\<not> is_banned s (tg_id u) \<Longrightarrow> redeem cfg clk u [] s = (RedeemUsage, register_user (clk 0) u s)"
  by (simp add: redeem_def Let_def)

lemma redeem_invalid:
  "\<not> is_banned s (tg_id u) \<Longrightarrow> map_of (codes s) (upper cfg a) = None \<Longrightarrow>
   redeem cfg clk u (a # rest) s = (InvalidCode, register_user (clk 0) u s)"
  by (simp add: redeem_def Let_def register_user_frame)

lemma redeem_already:
  "\<not> is_banned s (tg_id u) \<Longrightarrow> map_of (codes s) (upper cfg a) = Some c \<Longrightarrow> redeemed c \<Longrightarrow>
   redeemer c = Some r \<Longrightarrow>
   redeem cfg clk u (a # rest) s =
     (AlreadyRedeemed (r_first_name r) (r_username r) (r_date r), register_user (clk 0) u s)"
  by (simp add: redeem_def Let_def register_user_frame)

lemma redeem_inconsistent:
  "\<not> is_banned s (tg_id u) \<Longrightarrow> map_of (codes s) (upper cfg a) = Some c \<Longrightarrow> redeemed c \<Longrightarrow>
   redeemer c = None \<Longrightarrow>
   redeem cfg clk u (a # rest) s = (Raised TypeError, register_user (clk 0) u s)"
  by (simp add: redeem_def Let_def register_user_frame)

lemma redeem_success:
  assumes "\<not> is_banned s (tg_id u)" and "map_of (codes s) (upper cfg a) = Some c" and "\<not> redeemed c"
  shows "redeem cfg clk u (a # rest) s = (RedeemSuccess (upper cfg a) (prize c), redeemed_state clk u (upper cfg a) c s)"
proof -
  obtain r where "map_of (users (register_user (clk 0) u s)) (str_int (tg_id u)) = Some r"
    using register_user_present by blast
  with assms show ?thesis
    by (simp add: redeem_def Let_def register_user_frame save_data_def redeemed_state_def)
qed

text \<open>Every outcome of redeem, by cases.\<close>

lemma redeem_cases:
  obtains (banned) "is_banned s (tg_id u)" "redeem cfg clk u args s = (BannedReply, s)"
  | (usage) "\<not> is_banned s (tg_id u)" "args = []"
      "redeem cfg clk u args s = (RedeemUsage, register_user (clk 0) u s)"
  | (invalid) a rest where "\<not> is_banned s (tg_id u)" "args = a # rest"
      "map_of (codes s) (upper cfg a) = None"
      "redeem cfg clk u args s = (InvalidCode, register_user (clk 0) u s)"
  | (already) a rest c r where "\<not> is_banned s (tg_id u)" "args = a # rest"
      "map_of (codes s) (upper cfg a) = Some c" "redeemed c" "redeemer c = Some r"
      "redeem cfg clk u args s =
         (AlreadyRedeemed (r_first_name r) (r_username r) (r_date r), register_user (clk 0) u s)"
  | (broken) a rest c where "\<not> is_banned s (tg_id u)" "args = a # rest"
      "map_of (codes s) (upper cfg a) = Some c" "redeemed c" "redeemer c = None"
      "redeem cfg clk u args s = (Raised TypeError, register_user (clk 0) u s)"
  | (success) a rest c where "\<not> is_banned s (tg_id u)" "args = a # rest"
      "map_of (codes s) (upper cfg a) = Some c" "\<not> redeemed c"
      "redeem cfg clk u args s =
         (RedeemSuccess (upper cfg a) (prize c), redeemed_state clk u (upper cfg a) c s)"
proof (cases "is_banned s (tg_id u)")
  case True
  show ?thesis by (rule banned [OF True redeem_when_banned [OF True]])
next
  case nb: False
  show ?thesis
  proof (cases args)
    case Nil
    show ?thesis
      by (rule usage [OF nb Nil]) (simp add: Nil redeem_no_args [OF nb])
  next
    case (Cons a rest)
    show ?thesis
    proof (cases "map_of (codes s) (upper cfg a)")
      case None
      show ?thesis
        by (rule invalid [OF nb Cons None]) (simp add: Cons redeem_invalid [OF nb None])
    next
      case (Some c)
      show ?thesis
      proof (cases "redeemed c")
        case False
        show ?thesis
          by (rule success [OF nb Cons Some False])
             (simp add: Cons redeem_success [OF nb Some False])
      next
        case True
        show ?thesis
        proof (cases "redeemer c")
          case None
          show ?thesis
            by (rule broken [OF nb Cons Some True None])
               (simp add: Cons redeem_inconsistent [OF nb Some True None])
        next
          case (Some r)
          show ?thesis
            by (rule already [OF nb Cons \<open>map_of (codes s) (upper cfg a) = Some c\<close> True Some])
               (simp add: Cons redeem_already [OF nb \<open>map_of (codes s) (upper cfg a) = Some c\<close> True Some])
        qed
      qed
    qed
  qed
qed

lemma register_user_keeps:
  "map_of (users s) uid = Some r \<Longrightarrow> map_of (users (register_user now u s)) uid = Some r"
  by (auto simp: register_user_def Let_def save_data_def update_conv')

lemma register_user_summary:
  "codes (register_user now u s) = codes s \<and>
   banned_users (register_user now u s) = banned_users s \<and>
   users (register_user now u s) =
     (if map_of (users s) (str_int (tg_id u)) = None
      then users s @ [(str_int (tg_id u),
             \<lparr>username = or_NA (tg_username u), first_name = or_NA (tg_first_name u),
              last_name = or_NA (tg_last_name u), join_date = now, redeemed_codes = []\<rparr>)]
      else users s) \<and>
   (\<forall>uid r. map_of (users s) uid = Some r \<longrightarrow>
            map_of (users (register_user now u s)) uid = Some r)"
  using register_user_keeps [of s _ _ now u]
  by (simp add: register_user_frame register_user_users del: map_of_append)

text \<open>
  Claim C9. A redemption that is answered with the banned message leaves the whole state
  as it was (the user is not registered, nothing is written). One that is answered with
  \<open>InvalidCode\<close> or \<open>AlreadyRedeemed\<close> ends in the state \<open>register_user\<close> gives: the codes
  and the banned list are unchanged, every user stored before keeps the same record, and
  the only possible change is the new entry of the attempting user, with an empty
  history.
\<close>

theorem redeem_failure_frame:
  "(fst (redeem cfg clk u args s) = BannedReply \<longrightarrow> snd (redeem cfg clk u args s) = s) \<and>
   (fst (redeem cfg clk u args s) = InvalidCode \<or>
    (\<exists>f n d. fst (redeem cfg clk u args s) = AlreadyRedeemed f n d) \<longrightarrow>
      snd (redeem cfg clk u args s) = register_user (clk 0) u s \<and>
      codes (snd (redeem cfg clk u args s)) = codes s \<and>
      banned_users (snd (redeem cfg clk u args s)) = banned_users s \<and>
      users (snd (redeem cfg clk u args s)) =
        (if map_of (users s) (str_int (tg_id u)) = None
         then users s @ [(str_int (tg_id u),
                \<lparr>username = or_NA (tg_username u), first_name = or_NA (tg_first_name u),
                 last_name = or_NA (tg_last_name u), join_date = clk 0, redeemed_codes = []\<rparr>)]
         else users s) \<and>
      (\<forall>uid r. map_of (users s) uid = Some r \<longrightarrow>
               map_of (users (snd (redeem cfg clk u args s))) uid = Some r))"
proof (cases rule: redeem_cases [of s u cfg clk args])
  case banned
  then show ?thesis by simp
next
  case usage
  then show ?thesis by simp
next
  case (invalid a rest)
  then show ?thesis using register_user_summary [of "clk 0" u s] by simp
next
  case (already a rest c r)
  then show ?thesis using register_user_summary [of "clk 0" u s] by simp
next
  case (broken a rest c)
  then show ?thesis by simp
next
  case (success a rest c)
  then show ?thesis by simp
qed


theorem redeem_failure_frame_witness:
  "fst (redeem example_cfg example_clock user42 [''abc123''] (initial_state\<lparr>banned_users := [''42'']\<rparr>)) =
     BannedReply \<and>
   snd (redeem example_cfg example_clock user42 [''abc123''] (initial_state\<lparr>banned_users := [''42'']\<rparr>)) =
     initial_state\<lparr>banned_users := [''42'']\<rparr> \<and>
   fst (redeem example_cfg example_clock user42 [''abc123''] initial_state) = InvalidCode \<and>
   snd (redeem example_cfg example_clock user42 [''abc123''] initial_state) =
     register_user (example_clock 0) user42 initial_state \<and>
   codes (snd (redeem example_cfg example_clock user42 [''abc123''] initial_state)) = codes initial_state \<and>
   users (snd (redeem example_cfg example_clock user42 [''abc123''] initial_state)) =
     [(''42'', \<lparr>username = ''ann'', first_name = ''Ann'', last_name = ''N/A'',
                 join_date = ''t0'', redeemed_codes = []\<rparr>)]"
proof -
  have b: "fst (redeem example_cfg example_clock user42 [''abc123'']
             (initial_state\<lparr>banned_users := [''42'']\<rparr>)) = BannedReply"
    by code_simp
  have i: "fst (redeem example_cfg example_clock user42 [''abc123''] initial_state) = InvalidCode"
    by code_simp
  have us: "users (snd (redeem example_cfg example_clock user42 [''abc123''] initial_state)) =
     [(''42'', \<lparr>username = ''ann'', first_name = ''Ann'', last_name = ''N/A'',
                 join_date = ''t0'', redeemed_codes = []\<rparr>)]"
    by code_simp
  from redeem_failure_frame
    [of example_cfg example_clock user42 "[''abc123'']" "initial_state\<lparr>banned_users := [''42'']\<rparr>"] b
  have "snd (redeem example_cfg example_clock user42 [''abc123''] (initial_state\<lparr>banned_users := [''42'']\<rparr>)) =
     initial_state\<lparr>banned_users := [''42'']\<rparr>"
    by blast
  moreover from redeem_failure_frame [of example_cfg example_clock user42 "[''abc123'']" initial_state] i
  have "snd (redeem example_cfg example_clock user42 [''abc123''] initial_state) =
     register_user (example_clock 0) user42 initial_state \<and>
   codes (snd (redeem example_cfg example_clock user42 [''abc123''] initial_state)) = codes initial_state"
    by blast
  ultimately show ?thesis using b i us by blast
qed

subsection \<open>A redemption stays\<close>

lemma claimed_register_user: "claimed (register_user now u s) k r = claimed s k r"
  by (simp add: claimed_def register_user_frame)

lemma codes_redeemed_state:
  "codes (redeemed_state clk u k c s) =
     AList.map_entry k
       (\<lambda>c. c\<lparr>redeemed := True, redeemer := Some (redeemer_snapshot (clk 1) u)\<rparr>) (codes s)"
  by (simp add: redeemed_state_def Let_def)

lemma banned_redeemed_state:
  "banned_users (redeemed_state clk u k c s) = banned_users s"
  by (simp add: redeemed_state_def Let_def register_user_frame)

lemma claimed_redeemed_state:
  "map_of (codes s) k = Some c \<Longrightarrow>
   claimed (redeemed_state clk u k c s) k (redeemer_snapshot (clk 1) u)"
  by (simp add: claimed_def codes_redeemed_state map_of_map_entry)

lemma claimedE:
  assumes "claimed s k r"
  obtains c where "map_of (codes s) k = Some c" "redeemed c" "redeemer c = Some r"
  using assms by (cases "map_of (codes s) k") (simp_all add: claimed_def)

lemma claimedI:
  "map_of (codes s) k = Some c \<Longrightarrow> redeemed c \<Longrightarrow> redeemer c = Some r \<Longrightarrow> claimed s k r"
  by (simp add: claimed_def)

lemma redeem_keeps_claimed:
  assumes "claimed s k r"
  shows "claimed (snd (redeem cfg clk u args s)) k r"
proof (cases rule: redeem_cases [of s u cfg clk args])
  case banned
  with assms show ?thesis by simp
next
  case usage
  with assms show ?thesis by (simp add: claimed_register_user)
next
  case (invalid a rest)
  with assms show ?thesis by (simp add: claimed_register_user)
next
  case (already a rest c r)
  with assms show ?thesis by (simp add: claimed_register_user)
next
  case (broken a rest c)
  with assms show ?thesis by (simp add: claimed_register_user)
next
  case (success a rest c)
  from assms obtain c' where c': "map_of (codes s) k = Some c'" "redeemed c'"
    by (rule claimedE)
  with success have "upper cfg a \<noteq> k"
    by auto
  with assms success show ?thesis
    by (simp add: claimed_def codes_redeemed_state map_of_map_entry)
qed

lemma addcode_lookup:
  assumes "map_of (codes s) k = Some c"
  shows "map_of (codes (snd (addcode cfg clk u args s))) k = Some c"
proof (cases args)
  case Nil
  with assms show ?thesis by (simp add: addcode_def)
next
  case (Cons a rest)
  with assms show ?thesis
    by (cases "upper cfg a = k") (simp_all add: addcode_def Let_def save_data_def update_conv')
qed

lemma addcode_keeps_claimed:
  assumes "claimed s k r"
  shows "claimed (snd (addcode cfg clk u args s)) k r"
proof -
  from assms obtain c where c: "map_of (codes s) k = Some c" "redeemed c" "redeemer c = Some r"
    by (rule claimedE)
  from addcode_lookup [OF c(1)] c(2,3) show ?thesis by (rule claimedI)
qed

lemma addprize_keeps_claimed:
  assumes "claimed s k r"
  shows "claimed (snd (addprize cfg u args s)) k r"
proof -
  from assms obtain c where c: "map_of (codes s) k = Some c" "redeemed c" "redeemer c = Some r"
    by (rule claimedE)
  then show ?thesis
    by (cases "upper cfg (hd args) = k")
       (simp_all add: addprize_def Let_def save_data_def claimed_def map_of_map_entry)
qed

lemma ban_user_codes: "codes (snd (ban_user cfg u args s)) = codes s"
  by (simp add: ban_user_def Let_def save_data_def str_str_def split: list.split)

lemma unban_user_codes: "codes (snd (unban_user cfg u args s)) = codes s"
  by (simp add: unban_user_def Let_def save_data_def str_str_def split: list.split)

lemma draw_code_fresh:
  "draw_code pre cs ds = Some (code, ds') \<Longrightarrow> map_of cs code = None"
  by (induction ds) (auto simp: Let_def split: if_splits)

lemma gen_loop_keeps:
  "gen_loop n pre clk cs g ds = Some (cs', g') \<Longrightarrow> map_of cs k = Some c \<Longrightarrow>
   map_of cs' k = Some c"
proof (induction n arbitrary: cs g ds)
  case 0
  then show ?case by simp
next
  case (Suc n)
  from Suc.prems(1) obtain code ds' where d: "draw_code pre cs ds = Some (code, ds')"
    and l: "gen_loop n pre clk (AList.update code (new_code (clk (length g))) cs)
              (g @ [code]) ds' = Some (cs', g')"
    by (auto split: option.splits)
  from draw_code_fresh [OF d] Suc.prems(2) have "code \<noteq> k" by auto
  with Suc.prems(2) have "map_of (AList.update code (new_code (clk (length g))) cs) k = Some c"
    by (simp add: update_conv')
  with Suc.IH [OF l] show ?case .
qed

lemma gencode_keeps_claimed:
  assumes "gencode cfg clk ds u args s = Some (r', s')" and "claimed s k r"
  shows "claimed s' k r"
proof -
  from assms(2) obtain c where c: "map_of (codes s) k = Some c" "redeemed c" "redeemer c = Some r"
    by (rule claimedE)
  from assms(1) have "s' = s \<or>
     (\<exists>cs g n pre. gen_loop n pre clk (codes s) [] ds = Some (cs, g) \<and> codes s' = cs)"
    unfolding gencode_def Let_def save_data_def
    by (auto split: if_splits sum.splits option.splits)
  then consider "s' = s"
    | cs g n pre where "gen_loop n pre clk (codes s) [] ds = Some (cs, g)" "codes s' = cs"
    by blast
  then show ?thesis
  proof cases
    case 1
    with assms(2) show ?thesis by simp
  next
    case 2
    with gen_loop_keeps [OF 2(1) c(1)] c show ?thesis by (simp add: claimed_def)
  qed
qed

lemma step_keeps_claimed:
  assumes "keeps_claims c" and "step cfg c s = Some (r', s')" and "claimed s k r"
  shows "claimed s' k r"
proof (cases c)
  case (Start clk u)
  with assms show ?thesis by (auto simp: start_def claimed_register_user split: if_splits)
next
  case (Redeem clk u args)
  with assms redeem_keeps_claimed [of s k r cfg clk u args] show ?thesis by auto
next
  case (Stats u)
  with assms stats_state [of cfg u s] show ?thesis by auto
next
  case (Addcode clk u args)
  with assms addcode_keeps_claimed [of s k r cfg clk u args] show ?thesis by auto
next
  case (Addprize u args)
  with assms addprize_keeps_claimed [of s k r cfg u args] show ?thesis by auto
next
  case (Delcode u args)
  with assms show ?thesis by simp
next
  case (Gencode clk ds u args)
  with assms gencode_keeps_claimed [of cfg clk ds u args s r' s' k r] show ?thesis by auto
next
  case (Ban u args)
  with assms ban_user_codes [of cfg u args s] show ?thesis by (auto simp: claimed_def)
next
  case (Unban u args)
  with assms unban_user_codes [of cfg u args s] show ?thesis by (auto simp: claimed_def)
next
  case (Resetgiveaway u)
  with assms show ?thesis by simp
qed

lemma run_keeps_claimed:
  "list_all keeps_claims cs \<Longrightarrow> run cfg cs s = Some s' \<Longrightarrow> claimed s k r \<Longrightarrow> claimed s' k r"
proof (induction cs arbitrary: s)
  case Nil
  then show ?case by simp
next
  case (Cons c cs)
  from Cons.prems(2) obtain r' s1 where st: "step cfg c s = Some (r', s1)"
    and rest: "run cfg cs s1 = Some s'"
    by (auto split: option.splits)
  from Cons.prems(1) have kc: "keeps_claims c" and kcs: "list_all keeps_claims cs"
    by simp_all
  from step_keeps_claimed [OF kc st Cons.prems(3)] have "claimed s1 k r" .
  from Cons.IH [OF kcs rest this] show ?case .
qed

lemma redeem_claimed:
  assumes "claimed s k r" and "\<not> is_banned s (tg_id u)" and "upper cfg a = k"
  shows "redeem cfg clk u (a # rest) s =
     (AlreadyRedeemed (r_first_name r) (r_username r) (r_date r), register_user (clk 0) u s)"
proof -
  from assms(1) obtain c where "map_of (codes s) k = Some c" "redeemed c"
    "redeemer c = Some r"
    by (rule claimedE)
  with assms(3) have "map_of (codes s) (upper cfg a) = Some c" "redeemed c" "redeemer c = Some r"
    by simp_all
  with assms(2) show ?thesis by (rule redeem_already)
qed

lemma redeem_success_claimed:
  assumes "redeem cfg clk u args s = (RedeemSuccess k p, s1)"
  shows "claimed s1 k (redeemer_snapshot (clk 1) u)"
proof (cases rule: redeem_cases [of s u cfg clk args])
  case (success a rest c)
  with assms claimed_redeemed_state [of s "upper cfg a" c clk u] show ?thesis by simp
qed (use assms in simp_all)

text \<open>
  Claim C1. Once a \<open>redeem\<close> has succeeded on code \<open>k\<close>, the redeemer written by it is
  the stored redeemer of \<open>k\<close> after any further commands other than \<open>delcode\<close> and
  \<open>resetgiveaway\<close> (redemption attempts by anybody among them), and a later attempt on
  \<open>k\<close> by a user who is not banned is answered with \<open>AlreadyRedeemed\<close> carrying the first
  claimant's first name, username and date; it changes the codes in nothing, so the
  stored redeemer is still the first one afterwards.
\<close>

theorem redeem_first_come_first_served:
  assumes "redeem cfg clk1 u1 args1 s = (RedeemSuccess k p, s1)"
    and "list_all keeps_claims cmds" and "run cfg cmds s1 = Some s2"
    and "\<not> is_banned s2 (tg_id u2)" and "upper cfg a2 = k"
  shows "redeem cfg clk2 u2 (a2 # rest2) s2 =
           (AlreadyRedeemed (or_NA (tg_first_name u1)) (or_NA (tg_username u1)) (clk1 1),
            register_user (clk2 0) u2 s2) \<and>
         claimed s1 k (redeemer_snapshot (clk1 1) u1) \<and>
         claimed s2 k (redeemer_snapshot (clk1 1) u1) \<and>
         claimed (snd (redeem cfg clk2 u2 (a2 # rest2) s2)) k (redeemer_snapshot (clk1 1) u1)"
proof -
  from assms(1) have c1: "claimed s1 k (redeemer_snapshot (clk1 1) u1)"
    by (rule redeem_success_claimed)
  from run_keeps_claimed [OF assms(2,3) c1]
  have c2: "claimed s2 k (redeemer_snapshot (clk1 1) u1)" .
  from redeem_claimed [OF c2 assms(4,5)]
  have "redeem cfg clk2 u2 (a2 # rest2) s2 =
           (AlreadyRedeemed (or_NA (tg_first_name u1)) (or_NA (tg_username u1)) (clk1 1),
            register_user (clk2 0) u2 s2)"
    by (simp add: redeemer_snapshot_def)
  moreover from redeem_keeps_claimed [OF c2]
  have "claimed (snd (redeem cfg clk2 u2 (a2 # rest2) s2)) k (redeemer_snapshot (clk1 1) u1)" .
  ultimately show ?thesis using c1 c2 by simp
qed

theorem redeem_first_come_first_served_witness:
  "redeem example_cfg example_clock user42 [''abc123''] state_with_code =
     (RedeemSuccess ''ABC123'' ''No prize set'', state_redeemed) \<and>
   list_all keeps_claims
     [Redeem example_clock user43 [''ABC123''], Addprize admin_user [''abc123'', ''Car'']] \<and>
   run example_cfg
     [Redeem example_clock user43 [''ABC123''], Addprize admin_user [''abc123'', ''Car'']]
     state_redeemed = Some state_later \<and>
   \<not> is_banned state_later (tg_id user43) \<and> upper example_cfg ''Abc123'' = ''ABC123'' \<and>
   redeem example_cfg example_clock user43 [''Abc123''] state_later =
     (AlreadyRedeemed ''Ann'' ''ann'' ''t1'', register_user (example_clock 0) user43 state_later) \<and>
   claimed state_later ''ABC123''
     \<lparr>user_id = ''42'', r_username = ''ann'', r_first_name = ''Ann'', r_last_name = ''N/A'',
      r_date = ''t1''\<rparr>"
proof -
  have h1: "redeem example_cfg example_clock user42 [''abc123''] state_with_code =
     (RedeemSuccess ''ABC123'' ''No prize set'', state_redeemed)"
    by code_simp
  have h2: "list_all keeps_claims
     [Redeem example_clock user43 [''ABC123''], Addprize admin_user [''abc123'', ''Car'']]"
    by simp
  have h3: "run example_cfg
     [Redeem example_clock user43 [''ABC123''], Addprize admin_user [''abc123'', ''Car'']]
     state_redeemed = Some state_later"
    by code_simp
  have h4: "\<not> is_banned state_later (tg_id user43)"
    by code_simp
  have h5: "upper example_cfg ''Abc123'' = ''ABC123''"
    by code_simp
  have e: "or_NA (tg_first_name user42) = ''Ann''" "or_NA (tg_username user42) = ''ann''"
    "example_clock 1 = ''t1''"
    "redeemer_snapshot ''t1'' user42 =
       \<lparr>user_id = ''42'', r_username = ''ann'', r_first_name = ''Ann'', r_last_name = ''N/A'',
        r_date = ''t1''\<rparr>"
    by code_simp+
  from redeem_first_come_first_served [OF h1 h2 h3 h4 h5, of example_clock "[]"] e
  have "redeem example_cfg example_clock user43 [''Abc123''] state_later =
     (AlreadyRedeemed ''Ann'' ''ann'' ''t1'', register_user (example_clock 0) user43 state_later) \<and>
   claimed state_later ''ABC123''
     \<lparr>user_id = ''42'', r_username = ''ann'', r_first_name = ''Ann'', r_last_name = ''N/A'',
      r_date = ''t1''\<rparr>"
    by simp
  with h1 h2 h3 h4 h5 show ?thesis by (intro conjI) simp_all
qed

subsection \<open>Resetting the giveaway\<close>

lemma is_banned_cong: "banned_users s' = banned_users s \<Longrightarrow> is_banned s' uid = is_banned s uid"
  by (simp add: is_banned_def)

lemma resetgiveaway_admin:
  "is_admin cfg (tg_id caller) \<Longrightarrow>
   fst (resetgiveaway cfg caller s) = GiveawayReset \<and>
   codes (snd (resetgiveaway cfg caller s)) =
     map (\<lambda>(k, c). (k, c\<lparr>redeemed := False, redeemer := None\<rparr>)) (codes s) \<and>
   users (snd (resetgiveaway cfg caller s)) =
     map (\<lambda>(k, u). (k, u\<lparr>redeemed_codes := []\<rparr>)) (users s) \<and>
   banned_users (snd (resetgiveaway cfg caller s)) = banned_users s"
  by (simp add: resetgiveaway_def Let_def save_data_def)

text \<open>
  Claim C6. For the administrator, \<open>resetgiveaway\<close> sets \<open>redeemed\<close> to false and
  \<open>redeemer\<close> to \<open>None\<close> on every code and empties the history of every user.
  Afterwards a stored code (redeemed before or not) is redeemed by the first user who
  tries and is not banned, with its prize, and the next attempt on it is answered with
  \<open>AlreadyRedeemed\<close> naming that first user.
\<close>

theorem resetgiveaway_then_redeem_once:
  assumes "is_admin cfg (tg_id caller)" and "map_of (codes s) k = Some c"
    and "\<not> is_banned s (tg_id u1)" and "upper cfg a1 = k"
    and "\<not> is_banned s (tg_id u2)" and "upper cfg a2 = k"
  shows "fst (resetgiveaway cfg caller s) = GiveawayReset \<and>
     codes (snd (resetgiveaway cfg caller s)) =
       map (\<lambda>(k, c). (k, c\<lparr>redeemed := False, redeemer := None\<rparr>)) (codes s) \<and>
     users (snd (resetgiveaway cfg caller s)) =
       map (\<lambda>(k, u). (k, u\<lparr>redeemed_codes := []\<rparr>)) (users s) \<and>
     fst (redeem cfg clk1 u1 (a1 # rest1) (snd (resetgiveaway cfg caller s))) =
       RedeemSuccess k (prize c) \<and>
     fst (redeem cfg clk2 u2 (a2 # rest2)
            (snd (redeem cfg clk1 u1 (a1 # rest1) (snd (resetgiveaway cfg caller s))))) =
       AlreadyRedeemed (or_NA (tg_first_name u1)) (or_NA (tg_username u1)) (clk1 1)"
proof -
  define s0 where "s0 = snd (resetgiveaway cfg caller s)"
  define s1 where "s1 = snd (redeem cfg clk1 u1 (a1 # rest1) s0)"
  note r = resetgiveaway_admin [OF assms(1), of s, folded s0_def]
  from r have cs: "codes s0 = map (\<lambda>(k, c). (k, c\<lparr>redeemed := False, redeemer := None\<rparr>)) (codes s)"
    and b0: "banned_users s0 = banned_users s"
    by simp_all
  have "map_of (codes s0) k = map_option (\<lambda>c. c\<lparr>redeemed := False, redeemer := None\<rparr>) (map_of (codes s) k)"
    unfolding cs by (simp add: map_of_map)
  with assms(2,4) have look: "map_of (codes s0) (upper cfg a1) = Some (c\<lparr>redeemed := False, redeemer := None\<rparr>)"
    by simp
  from assms(3) b0 have nb1: "\<not> is_banned s0 (tg_id u1)"
    by (simp add: is_banned_def)
  from redeem_success [OF nb1 look, of clk1 rest1] assms(4)
  have first: "redeem cfg clk1 u1 (a1 # rest1) s0 =
      (RedeemSuccess k (prize c), redeemed_state clk1 u1 k (c\<lparr>redeemed := False, redeemer := None\<rparr>) s0)"
    by simp
  then have "redeem cfg clk1 u1 (a1 # rest1) s0 = (RedeemSuccess k (prize c), s1)"
    by (simp add: s1_def)
  then have cl: "claimed s1 k (redeemer_snapshot (clk1 1) u1)"
    by (rule redeem_success_claimed)
  have "banned_users s1 = banned_users s"
    unfolding s1_def using redeem_banned [of cfg clk1 u1 "a1 # rest1" s0] b0 by simp
  with assms(5) have nb2: "\<not> is_banned s1 (tg_id u2)"
    by (simp add: is_banned_def)
  from redeem_claimed [OF cl nb2 assms(6), of clk2 rest2]
  have second: "fst (redeem cfg clk2 u2 (a2 # rest2) s1) =
      AlreadyRedeemed (or_NA (tg_first_name u1)) (or_NA (tg_username u1)) (clk1 1)"
    by (simp add: redeemer_snapshot_def)
  from r first second show ?thesis
    unfolding s1_def s0_def by simp
qed

theorem resetgiveaway_then_redeem_once_witness:
  "is_admin example_cfg (tg_id admin_user) \<and>
   map_of (codes state_redeemed) ''ABC123'' =
     Some \<lparr>prize = ''No prize set'', redeemed = True,
           redeemer = Some \<lparr>user_id = ''42'', r_username = ''ann'', r_first_name = ''Ann'',
                             r_last_name = ''N/A'', r_date = ''t1''\<rparr>,
           created_date = ''t0''\<rparr> \<and>
   \<not> is_banned state_redeemed (tg_id user43) \<and> upper example_cfg ''abc123'' = ''ABC123'' \<and>
   \<not> is_banned state_redeemed (tg_id user42) \<and> upper example_cfg ''ABC123'' = ''ABC123'' \<and>
   fst (redeem example_cfg example_clock user43 [''abc123'']
          (snd (resetgiveaway example_cfg admin_user state_redeemed))) =
     RedeemSuccess ''ABC123'' ''No prize set'' \<and>
   fst (redeem example_cfg example_clock user42 [''ABC123'']
          (snd (redeem example_cfg example_clock user43 [''abc123'']
                  (snd (resetgiveaway example_cfg admin_user state_redeemed))))) =
     AlreadyRedeemed ''Bob'' ''N/A'' ''t1''"
proof -
  have h1: "is_admin example_cfg (tg_id admin_user)"
    by code_simp
  have h2: "map_of (codes state_redeemed) ''ABC123'' =
     Some \<lparr>prize = ''No prize set'', redeemed = True,
           redeemer = Some \<lparr>user_id = ''42'', r_username = ''ann'', r_first_name = ''Ann'',
                             r_last_name = ''N/A'', r_date = ''t1''\<rparr>,
           created_date = ''t0''\<rparr>"
    by code_simp
  have h3: "\<not> is_banned state_redeemed (tg_id user43)"
    by code_simp
  have h4: "upper example_cfg ''abc123'' = ''ABC123''"
    by code_simp
  have h5: "\<not> is_banned state_redeemed (tg_id user42)"
    by code_simp
  have h6: "upper example_cfg ''ABC123'' = ''ABC123''"
    by code_simp
  have e: "or_NA (tg_first_name user43) = ''Bob''" "or_NA (tg_username user43) = ''N/A''"
    "example_clock 1 = ''t1''"
    by code_simp+
  from resetgiveaway_then_redeem_once [OF h1 h2 h3 h4 h5 h6, of example_clock "[]" example_clock "[]"] e
  have "fst (redeem example_cfg example_clock user43 [''abc123'']
          (snd (resetgiveaway example_cfg admin_user state_redeemed))) =
     RedeemSuccess ''ABC123'' ''No prize set'' \<and>
   fst (redeem example_cfg example_clock user42 [''ABC123'']
          (snd (redeem example_cfg example_clock user43 [''abc123'']
                  (snd (resetgiveaway example_cfg admin_user state_redeemed))))) =
     AlreadyRedeemed ''Bob'' ''N/A'' ''t1''"
    by simp
  with h1 h2 h3 h4 h5 h6 show ?thesis by (intro conjI) simp_all
qed

subsection \<open>Upper-case keys\<close>

lemma addcode_admin:
  "is_admin cfg (tg_id adm) \<Longrightarrow>
   addcode cfg clk adm (a # rest) s =
     (if map_of (codes s) (upper cfg a) = None
      then (CodeAdded (upper cfg a),
            s\<lparr>codes := codes s @ [(upper cfg a, new_code (clk 0))],
              disk_writes := disk_writes s @
                [(CODES_FILE, Codes_doc (codes s @ [(upper cfg a, new_code (clk 0))]))]\<rparr>)
      else (DuplicateCode (upper cfg a), s))"
  by (auto simp: addcode_def Let_def save_data_def update_absent)

lemma addprize_admin:
  "is_admin cfg (tg_id adm) \<Longrightarrow>
   addprize cfg adm (a # b # rest) s =
     (if map_of (codes s) (upper cfg a) = None then (AddprizeUnknownCode (upper cfg a), s)
      else (PrizeSet (upper cfg a) (join_spaces (b # rest)),
            s\<lparr>codes := AList.map_entry (upper cfg a)
                         (\<lambda>c. c\<lparr>prize := join_spaces (b # rest)\<rparr>) (codes s),
              disk_writes := disk_writes s @
                [(CODES_FILE, Codes_doc (AList.map_entry (upper cfg a)
                                 (\<lambda>c. c\<lparr>prize := join_spaces (b # rest)\<rparr>) (codes s)))]\<rparr>))"
  by (auto simp: addprize_def Let_def save_data_def)

lemma delcode_admin:
  "is_admin cfg (tg_id adm) \<Longrightarrow>
   delcode cfg adm (a # rest) s =
     (if map_of (codes s) (upper cfg a) = None then (UnknownCode (upper cfg a), s)
      else (CodeDeleted (upper cfg a),
            s\<lparr>codes := AList.delete (upper cfg a) (codes s),
              disk_writes := disk_writes s @
                [(CODES_FILE, Codes_doc (AList.delete (upper cfg a) (codes s)))]\<rparr>))"
  by (auto simp: delcode_def Let_def save_data_def)

lemma redeem_not_banned:
  assumes "\<not> is_banned s (tg_id u)"
  shows "redeem cfg clk u (a # rest) s =
     (case map_of (codes s) (upper cfg a) of
        None \<Rightarrow> (InvalidCode, register_user (clk 0) u s)
      | Some c \<Rightarrow>
          if redeemed c then
            (case redeemer c of
               None \<Rightarrow> (Raised TypeError, register_user (clk 0) u s)
             | Some r \<Rightarrow> (AlreadyRedeemed (r_first_name r) (r_username r) (r_date r),
                          register_user (clk 0) u s))
          else (RedeemSuccess (upper cfg a) (prize c),
                redeemed_state clk u (upper cfg a) c s))"
proof (cases "map_of (codes s) (upper cfg a)")
  case None
  with redeem_invalid [OF assms None] show ?thesis by simp
next
  case (Some c)
  show ?thesis
  proof (cases "redeemed c")
    case False
    with Some redeem_success [OF assms Some False] show ?thesis by simp
  next
    case True
    show ?thesis
    proof (cases "redeemer c")
      case None
      with Some True redeem_inconsistent [OF assms Some True None] show ?thesis by simp
    next
      case (Some r)
      with \<open>map_of (codes s) (upper cfg a) = Some c\<close> True
        redeem_already [OF assms \<open>map_of (codes s) (upper cfg a) = Some c\<close> True Some]
      show ?thesis by simp
    qed
  qed
qed

text \<open>The keys the loops of \<open>gencode\<close> add are the prefix followed by a draw.\<close>

lemma draw_code_key:
  "draw_code pre cs ds = Some (code, ds') \<Longrightarrow>
   code \<in> (\<lambda>d. pre @ d) ` set ds \<and> set ds' \<subseteq> set ds"
  by (induction ds) (auto simp: Let_def split: if_splits)

lemma gen_loop_keys:
  "gen_loop n pre clk cs g ds = Some (cs', g') \<Longrightarrow>
   fst ` set cs' \<subseteq> fst ` set cs \<union> (\<lambda>d. pre @ d) ` set ds"
proof (induction n arbitrary: cs g ds)
  case 0
  then show ?case by simp
next
  case (Suc n)
  from Suc.prems obtain code ds' where d: "draw_code pre cs ds = Some (code, ds')"
    and l: "gen_loop n pre clk (AList.update code (new_code (clk (length g))) cs)
              (g @ [code]) ds' = Some (cs', g')"
    by (auto split: option.splits)
  from draw_code_key [OF d] have code: "code \<in> (\<lambda>d. pre @ d) ` set ds" and sub: "set ds' \<subseteq> set ds"
    by simp_all
  from Suc.IH [OF l]
  have "fst ` set cs' \<subseteq>
      fst ` set (AList.update code (new_code (clk (length g))) cs) \<union> (\<lambda>d. pre @ d) ` set ds'" .
  also have "fst ` set (AList.update code (new_code (clk (length g))) cs) = {code} \<union> fst ` set cs"
    by (rule dom_update)
  finally show ?case using code sub by auto
qed

lemma gencode_keys:
  assumes "gencode cfg clk draws adm (n # a # rest) s = Some (r, s')"
  shows "fst ` set (codes s') \<subseteq> fst ` set (codes s) \<union> (\<lambda>d. upper cfg a @ d) ` set draws"
proof -
  from assms have "s' = s \<or>
     (\<exists>cs g m. gen_loop m (upper cfg a) clk (codes s) [] draws = Some (cs, g) \<and> codes s' = cs)"
    unfolding gencode_def Let_def save_data_def
    by (auto split: if_splits sum.splits option.splits)
  then show ?thesis
  proof (elim disjE exE conjE)
    assume "s' = s"
    then show ?thesis by auto
  next
    fix cs g m
    assume l: "gen_loop m (upper cfg a) clk (codes s) [] draws = Some (cs, g)"
      and c: "codes s' = cs"
    from gen_loop_keys [OF l] c show ?thesis by simp
  qed
qed

text \<open>The scenario of the specification, for any configuration that upper-cases as Python does.\<close>

lemma iphone_scenario:
  fixes cfg :: config and clk clk' :: clock and adm :: identity
  defines "s2 \<equiv> snd (addprize cfg adm [''ABC123'', ''iPhone'', ''15'']
                      (snd (addcode cfg clk adm [''ABC123''] initial_state)))"
  assumes adm: "is_admin cfg (tg_id adm)"
    and up: "upper cfg ''ABC123'' = ''ABC123''" "upper cfg ''abc123'' = ''ABC123''"
  shows "map_of (codes s2) ''ABC123'' =
           Some \<lparr>prize = ''iPhone 15'', redeemed = False, redeemer = None, created_date = clk 0\<rparr>"
    and "fst (redeem cfg clk user42 [''abc123''] s2) = RedeemSuccess ''ABC123'' ''iPhone 15''"
    and "fst (redeem cfg clk' user43 [''ABC123''] (snd (redeem cfg clk user42 [''abc123''] s2))) =
           AlreadyRedeemed ''Ann'' ''ann'' (clk 1)"
    and "claimed (snd (redeem cfg clk' user43 [''ABC123'']
                    (snd (redeem cfg clk user42 [''abc123''] s2)))) ''ABC123''
           \<lparr>user_id = ''42'', r_username = ''ann'', r_first_name = ''Ann'', r_last_name = ''N/A'',
            r_date = clk 1\<rparr>"
proof -
  let ?c = "\<lparr>prize = ''iPhone 15'', redeemed = False, redeemer = None, created_date = clk 0\<rparr>"
  have s2: "codes s2 = [(''ABC123'', ?c)]" "banned_users s2 = []"
    unfolding s2_def
    by (simp_all add: addcode_admin [OF adm] addprize_admin [OF adm] up initial_state_def
        new_code_def)
  show look: "map_of (codes s2) ''ABC123'' = Some ?c"
    by (simp add: s2)
  have nb: "\<not> is_banned s2 (tg_id user42)"
    by (simp add: is_banned_def s2)
  from look up have look': "map_of (codes s2) (upper cfg ''abc123'') = Some ?c"
    by simp
  from redeem_success [OF nb look', of clk "[]"] up
  have first: "redeem cfg clk user42 [''abc123''] s2 =
      (RedeemSuccess ''ABC123'' ''iPhone 15'', redeemed_state clk user42 ''ABC123'' ?c s2)"
    by simp
  then show "fst (redeem cfg clk user42 [''abc123''] s2) = RedeemSuccess ''ABC123'' ''iPhone 15''"
    by simp
  let ?s3 = "snd (redeem cfg clk user42 [''abc123''] s2)"
  from first have "redeem cfg clk user42 [''abc123''] s2 =
      (RedeemSuccess ''ABC123'' ''iPhone 15'', ?s3)"
    by simp
  then have cl: "claimed ?s3 ''ABC123'' (redeemer_snapshot (clk 1) user42)"
    by (rule redeem_success_claimed)
  have snap: "redeemer_snapshot (clk 1) user42 =
      \<lparr>user_id = ''42'', r_username = ''ann'', r_first_name = ''Ann'', r_last_name = ''N/A'',
       r_date = clk 1\<rparr>"
    by (simp add: redeemer_snapshot_def user42_def or_NA_def str_int_def digit_char_def)
  have "banned_users ?s3 = []"
    using redeem_banned [of cfg clk user42 "[''abc123'']" s2] s2 by simp
  then have nb3: "\<not> is_banned ?s3 (tg_id user43)"
    by (simp add: is_banned_def)
  from redeem_claimed [OF cl nb3 up(1), of clk' "[]"] snap
  show "fst (redeem cfg clk' user43 [''ABC123''] ?s3) = AlreadyRedeemed ''Ann'' ''ann'' (clk 1)"
    by simp
  from redeem_keeps_claimed [OF cl, of cfg clk' user43 "[''ABC123'']"] snap
  show "claimed (snd (redeem cfg clk' user43 [''ABC123''] ?s3)) ''ABC123''
           \<lparr>user_id = ''42'', r_username = ''ann'', r_first_name = ''Ann'', r_last_name = ''N/A'',
            r_date = clk 1\<rparr>"
    by simp
qed

text \<open>
  Claim C5. Every handler that takes a code applies \<open>upper\<close> to its argument and works on
  that key only. For the administrator, \<open>addcode\<close> looks up and appends the upper-cased
  key, \<open>addprize\<close> looks up and changes the entry of the upper-cased key, \<open>delcode\<close> looks up
  and deletes the upper-cased key, and every key \<open>gencode\<close> adds is the upper-cased prefix
  followed by a draw; for a user who is not banned, \<open>redeem\<close> looks up the upper-cased key
  and, when it succeeds, marks that entry. So a code created through one spelling is
  found by redemption, prize setting and deletion through every spelling with the same
  upper-case form. In the scenario of the specification, code \<open>ABC123\<close> with prize
  "iPhone 15" is redeemed by user 42 through \<open>abc123\<close>, the prize reported is
  "iPhone 15", and user 43's attempt on \<open>ABC123\<close> is answered with \<open>AlreadyRedeemed\<close> naming
  user 42, who stays the stored redeemer.
\<close>

theorem code_keys_uppercased:
  "(is_admin cfg (tg_id adm) \<longrightarrow>
      addcode cfg clk adm (a # rest) s =
        (if map_of (codes s) (upper cfg a) = None
         then (CodeAdded (upper cfg a),
               s\<lparr>codes := codes s @ [(upper cfg a, new_code (clk 0))],
                 disk_writes := disk_writes s @
                   [(CODES_FILE, Codes_doc (codes s @ [(upper cfg a, new_code (clk 0))]))]\<rparr>)
         else (DuplicateCode (upper cfg a), s)) \<and>
      addprize cfg adm (a # b # rest) s =
        (if map_of (codes s) (upper cfg a) = None then (AddprizeUnknownCode (upper cfg a), s)
         else (PrizeSet (upper cfg a) (join_spaces (b # rest)),
               s\<lparr>codes := AList.map_entry (upper cfg a)
                            (\<lambda>c. c\<lparr>prize := join_spaces (b # rest)\<rparr>) (codes s),
                 disk_writes := disk_writes s @
                   [(CODES_FILE, Codes_doc (AList.map_entry (upper cfg a)
                                    (\<lambda>c. c\<lparr>prize := join_spaces (b # rest)\<rparr>) (codes s)))]\<rparr>)) \<and>
      delcode cfg adm (a # rest) s =
        (if map_of (codes s) (upper cfg a) = None then (UnknownCode (upper cfg a), s)
         else (CodeDeleted (upper cfg a),
               s\<lparr>codes := AList.delete (upper cfg a) (codes s),
                 disk_writes := disk_writes s @
                   [(CODES_FILE, Codes_doc (AList.delete (upper cfg a) (codes s)))]\<rparr>)) \<and>
      (\<forall>r s'. gencode cfg clk draws adm (n # a # rest) s = Some (r, s') \<longrightarrow>
         fst ` set (codes s') \<subseteq> fst ` set (codes s) \<union> (\<lambda>d. upper cfg a @ d) ` set draws)) \<and>
   (\<not> is_banned s (tg_id u) \<longrightarrow>
      redeem cfg clk u (a # rest) s =
        (case map_of (codes s) (upper cfg a) of
           None \<Rightarrow> (InvalidCode, register_user (clk 0) u s)
         | Some c \<Rightarrow>
             if redeemed c then
               (case redeemer c of
                  None \<Rightarrow> (Raised TypeError, register_user (clk 0) u s)
                | Some r \<Rightarrow> (AlreadyRedeemed (r_first_name r) (r_username r) (r_date r),
                             register_user (clk 0) u s))
             else (RedeemSuccess (upper cfg a) (prize c),
                   redeemed_state clk u (upper cfg a) c s))) \<and>
   (is_admin cfg (tg_id adm) \<and> upper cfg ''ABC123'' = ''ABC123'' \<and>
    upper cfg ''abc123'' = ''ABC123'' \<longrightarrow>
      map_of (codes (snd (addprize cfg adm [''ABC123'', ''iPhone'', ''15'']
                            (snd (addcode cfg clk adm [''ABC123''] initial_state))))) ''ABC123'' =
        Some \<lparr>prize = ''iPhone 15'', redeemed = False, redeemer = None, created_date = clk 0\<rparr> \<and>
      fst (redeem cfg clk user42 [''abc123'']
             (snd (addprize cfg adm [''ABC123'', ''iPhone'', ''15'']
                     (snd (addcode cfg clk adm [''ABC123''] initial_state))))) =
        RedeemSuccess ''ABC123'' ''iPhone 15'' \<and>
      fst (redeem cfg clk' user43 [''ABC123'']
             (snd (redeem cfg clk user42 [''abc123'']
                     (snd (addprize cfg adm [''ABC123'', ''iPhone'', ''15'']
                             (snd (addcode cfg clk adm [''ABC123''] initial_state))))))) =
        AlreadyRedeemed ''Ann'' ''ann'' (clk 1) \<and>
      claimed (snd (redeem cfg clk' user43 [''ABC123'']
             (snd (redeem cfg clk user42 [''abc123'']
                     (snd (addprize cfg adm [''ABC123'', ''iPhone'', ''15'']
                             (snd (addcode cfg clk adm [''ABC123''] initial_state)))))))) ''ABC123''
        \<lparr>user_id = ''42'', r_username = ''ann'', r_first_name = ''Ann'', r_last_name = ''N/A'',
         r_date = clk 1\<rparr>)"
  apply (intro conjI impI allI)
          apply (erule addcode_admin)
         apply (erule addprize_admin)
        apply (erule delcode_admin)
       apply (erule gencode_keys)
      apply (erule redeem_not_banned)
     apply (elim conjE, rule iphone_scenario(1); assumption)
    apply (elim conjE, rule iphone_scenario(2); assumption)
   apply (elim conjE, rule iphone_scenario(3); assumption)
  apply (elim conjE, rule iphone_scenario(4); assumption)
  done

theorem code_keys_uppercased_witness:
  "is_admin example_cfg (tg_id admin_user) \<and> \<not> is_banned state_with_code (tg_id user42) \<and>
   upper example_cfg ''ABC123'' = ''ABC123'' \<and> upper example_cfg ''abc123'' = ''ABC123'' \<and>
   upper example_cfg ''aBc123'' = ''ABC123'' \<and>
   map_of (codes state_with_code) ''ABC123'' = Some (new_code ''t0'') \<and>
   map_of (codes state_with_code) ''abc123'' = None \<and>
   fst (addcode example_cfg example_clock admin_user [''aBc123''] state_with_code) =
     DuplicateCode ''ABC123'' \<and>
   fst (redeem example_cfg example_clock user42 [''aBc123''] state_with_code) =
     RedeemSuccess ''ABC123'' ''No prize set'' \<and>
   delcode example_cfg admin_user [''aBc123''] state_with_code =
     (CodeDeleted ''ABC123'',
      state_with_code\<lparr>codes := [], disk_writes := disk_writes state_with_code @
        [(CODES_FILE, Codes_doc [])]\<rparr>) \<and>
   fst (redeem example_cfg example_clock user42 [''abc123''] state_iphone) =
     RedeemSuccess ''ABC123'' ''iPhone 15'' \<and>
   fst (redeem example_cfg example_clock user43 [''ABC123'']
          (snd (redeem example_cfg example_clock user42 [''abc123''] state_iphone))) =
     AlreadyRedeemed ''Ann'' ''ann'' ''t1''"
proof -
  have h1: "is_admin example_cfg (tg_id admin_user)"
    by code_simp
  have h2: "\<not> is_banned state_with_code (tg_id user42)"
    by code_simp
  have h3: "upper example_cfg ''ABC123'' = ''ABC123''" "upper example_cfg ''abc123'' = ''ABC123''"
    "upper example_cfg ''aBc123'' = ''ABC123''"
    by code_simp+
  have look: "map_of (codes state_with_code) ''ABC123'' = Some (new_code ''t0'')"
    "map_of (codes state_with_code) ''abc123'' = None"
    by code_simp+
  have cs: "codes state_with_code = [(''ABC123'', new_code ''t0'')]"
    by code_simp
  have e: "example_clock 1 = ''t1''" "prize (new_code ''t0'') = ''No prize set''"
    "\<not> redeemed (new_code ''t0'')"
    by code_simp+
  note T = code_keys_uppercased [of example_cfg admin_user example_clock "''aBc123''" "[]"
      state_with_code _ _ _ user42 example_clock]
  note A = T [THEN conjunct1, THEN mp, OF h1]
  note B = T [THEN conjunct2, THEN conjunct1, THEN mp, OF h2]
  note C = T [THEN conjunct2, THEN conjunct2, THEN mp, OF conjI [OF h1 conjI [OF h3(1) h3(2)]]]
  from A [THEN conjunct1] have "fst (addcode example_cfg example_clock admin_user [''aBc123'']
      state_with_code) = DuplicateCode ''ABC123''"
    by (simp add: h3 look)
  moreover from B have "fst (redeem example_cfg example_clock user42 [''aBc123'']
      state_with_code) = RedeemSuccess ''ABC123'' ''No prize set''"
    by (simp add: h3 look e)
  moreover from A [THEN conjunct2, THEN conjunct2, THEN conjunct1]
  have "delcode example_cfg admin_user [''aBc123''] state_with_code =
     (CodeDeleted ''ABC123'',
      state_with_code\<lparr>codes := [], disk_writes := disk_writes state_with_code @
        [(CODES_FILE, Codes_doc [])]\<rparr>)"
    by (simp add: h3 look cs)
  moreover from C [THEN conjunct2, THEN conjunct1]
  have "fst (redeem example_cfg example_clock user42 [''abc123''] state_iphone) =
     RedeemSuccess ''ABC123'' ''iPhone 15''"
    by (simp only: state_iphone_def)
  moreover from C [THEN conjunct2, THEN conjunct2, THEN conjunct1]
  have "fst (redeem example_cfg example_clock user43 [''ABC123'']
          (snd (redeem example_cfg example_clock user42 [''abc123''] state_iphone))) =
     AlreadyRedeemed ''Ann'' ''ann'' ''t1''"
    by (simp only: state_iphone_def e)
  ultimately show ?thesis using h1 h2 h3 look by (intro conjI)
qed

subsection \<open>Generating codes\<close>

lemma draw_code_None: "draw_code pre cs ds = None \<longleftrightarrow> (\<forall>d\<in>set ds. map_of cs (pre @ d) \<noteq> None)"
  by (induction ds) (auto simp: Let_def)

lemma draw_code_Some:
  "draw_code pre cs ds = Some (code, ds') \<Longrightarrow> map_of cs code = None \<and> prefix pre code"
  by (induction ds) (auto simp: Let_def split: if_splits)

lemma fresh_count_card:
  "fresh_count pre cs ds = card {d \<in> set ds. map_of cs (pre @ d) = None}"
  by (simp add: fresh_count_def length_remdups_card_conv)

lemma draw_code_fresh_count:
  "draw_code pre cs ds = Some (code, ds') \<Longrightarrow>
   fresh_count pre cs ds = Suc (fresh_count pre (AList.update code v cs) ds')"
proof (induction ds)
  case Nil
  then show ?case by simp
next
  case (Cons d ds)
  show ?case
  proof (cases "map_of cs (pre @ d) = None")
    case True
    with Cons.prems have code: "code = pre @ d" and ds': "ds' = ds"
      by (simp_all add: Let_def)
    let ?A = "{e \<in> set ds. map_of cs (pre @ e) = None}"
    have "{e \<in> set (d # ds). map_of cs (pre @ e) = None} = insert d ?A"
      using True by auto
    moreover have "{e \<in> set ds. map_of (AList.update code v cs) (pre @ e) = None} = ?A - {d}"
      by (auto simp: code update_conv')
    moreover have "card (insert d ?A) = Suc (card (?A - {d}))"
      by (simp add: card.insert_remove)
    ultimately show ?thesis
      by (simp add: fresh_count_card ds')
  next
    case False
    with Cons.prems have "draw_code pre cs ds = Some (code, ds')"
      by (simp add: Let_def)
    from Cons.IH [OF this] have "fresh_count pre cs ds = Suc (fresh_count pre (AList.update code v cs) ds')" .
    moreover have "{e \<in> set (d # ds). map_of cs (pre @ e) = None} = {e \<in> set ds. map_of cs (pre @ e) = None}"
      using False by auto
    ultimately show ?thesis
      by (simp add: fresh_count_card)
  qed
qed

lemma gen_loop_None:
  "gen_loop n pre clk cs g ds = None \<longleftrightarrow> fresh_count pre cs ds < n"
proof (induction n arbitrary: cs g ds)
  case 0
  then show ?case by simp
next
  case (Suc n)
  show ?case
  proof (cases "draw_code pre cs ds")
    case None
    then have e: "{d \<in> set ds. map_of cs (pre @ d) = None} = {}"
      by (auto simp: draw_code_None)
    have "fresh_count pre cs ds = 0"
      unfolding fresh_count_card e by simp
    with None show ?thesis by simp
  next
    case (Some p)
    obtain code ds' where p: "p = (code, ds')" by (cases p)
    from Some p draw_code_fresh_count [of pre cs ds code ds' "new_code (clk (length g))"]
    have "fresh_count pre cs ds = Suc (fresh_count pre (AList.update code (new_code (clk (length g))) cs) ds')"
      by simp
    with Some p Suc.IH [of "AList.update code (new_code (clk (length g))) cs" "g @ [code]" ds']
    show ?thesis by simp
  qed
qed

lemma gen_loop_Some:
  "gen_loop n pre clk cs g ds = Some (cs', g') \<Longrightarrow>
   \<exists>new. g' = g @ new \<and> length new = n \<and> distinct new \<and>
         (\<forall>k\<in>set new. map_of cs k = None \<and> prefix pre k) \<and>
         cs' = cs @ zip new (map (\<lambda>i. new_code (clk i)) [length g..<length g + n])"
proof (induction n arbitrary: cs g ds)
  case 0
  then show ?case by simp
next
  case (Suc n)
  from Suc.prems obtain code ds' where d: "draw_code pre cs ds = Some (code, ds')"
    and l: "gen_loop n pre clk (AList.update code (new_code (clk (length g))) cs)
              (g @ [code]) ds' = Some (cs', g')"
    by (auto split: option.splits)
  from draw_code_Some [OF d] have fresh: "map_of cs code = None" and pfx: "prefix pre code"
    by simp_all
  let ?cs1 = "cs @ [(code, new_code (clk (length g)))]"
  from fresh have upd: "AList.update code (new_code (clk (length g))) cs = ?cs1"
    by (rule update_absent)
  from Suc.IH [OF l [unfolded upd]] obtain new where
    g': "g' = (g @ [code]) @ new" and len: "length new = n" and dist: "distinct new"
    and each: "\<forall>k\<in>set new. map_of ?cs1 k = None \<and> prefix pre k"
    and cs': "cs' = ?cs1 @ zip new (map (\<lambda>i. new_code (clk i))
                 [length (g @ [code])..<length (g @ [code]) + n])"
    by blast
  from each have notin: "code \<notin> set new"
    by auto
  from each have each': "\<forall>k\<in>set new. map_of cs k = None \<and> prefix pre k"
    by (auto split: if_splits)
  have upt: "[length g..<length g + Suc n] = length g # [Suc (length g)..<Suc (length g) + n]"
    by (simp add: upt_conv_Cons)
  have "g' = g @ (code # new)" using g' by simp
  moreover have "length (code # new) = Suc n" using len by simp
  moreover have "distinct (code # new)" using dist notin by simp
  moreover have "\<forall>k\<in>set (code # new). map_of cs k = None \<and> prefix pre k"
    using each' fresh pfx by simp
  moreover have "cs' = cs @ zip (code # new) (map (\<lambda>i. new_code (clk i)) [length g..<length g + Suc n])"
    unfolding upt using cs' by simp
  ultimately show ?case by blast
qed

lemma gencode_not_admin:
  "\<not> is_admin cfg (tg_id caller) \<Longrightarrow> gencode cfg clk draws caller args s = Some (AdminOnly, s)"
  by (simp add: gencode_def)

lemma gencode_admin:
  assumes "is_admin cfg (tg_id caller)" and "py_int cfg a0 = Inr n"
  shows "gencode cfg clk draws caller (a0 # a1 # rest) s =
     (if 50 < n then Some (LimitExceeded, s)
      else case gen_loop (nat n) (upper cfg a1) clk (codes s) [] draws of
             None \<Rightarrow> None
           | Some (cs, g) \<Rightarrow> Some (Generated n g,
               s\<lparr>codes := cs, disk_writes := disk_writes s @ [(CODES_FILE, Codes_doc cs)]\<rparr>))"
  using assms by (simp add: gencode_def Let_def save_data_def split: option.split)

lemma gencode_outcome:
  assumes "is_admin cfg (tg_id caller)" and "py_int cfg a0 = Inr n"
  shows "(50 < n \<longrightarrow> gencode cfg clk draws caller (a0 # a1 # rest) s = Some (LimitExceeded, s)) \<and>
    (n \<le> 50 \<longrightarrow>
       (gencode cfg clk draws caller (a0 # a1 # rest) s = None \<longleftrightarrow>
          fresh_count (upper cfg a1) (codes s) draws < nat n) \<and>
       (\<forall>r s'. gencode cfg clk draws caller (a0 # a1 # rest) s = Some (r, s') \<longrightarrow>
          (\<exists>new. r = Generated n new \<and> length new = nat n \<and> distinct new \<and>
             (\<forall>k\<in>set new. map_of (codes s) k = None \<and> prefix (upper cfg a1) k) \<and>
             codes s' = codes s @ zip new (map (\<lambda>i. new_code (clk i)) [0..<nat n]) \<and>
             s' = s\<lparr>codes := codes s', disk_writes := disk_writes s @ [(CODES_FILE, Codes_doc (codes s'))]\<rparr>)))"
proof (intro conjI impI allI)
  assume "50 < n"
  then show "gencode cfg clk draws caller (a0 # a1 # rest) s = Some (LimitExceeded, s)"
    by (simp add: gencode_admin [OF assms])
next
  assume "n \<le> 50"
  then show "gencode cfg clk draws caller (a0 # a1 # rest) s = None \<longleftrightarrow>
      fresh_count (upper cfg a1) (codes s) draws < nat n"
    using gen_loop_None [of "nat n" "upper cfg a1" clk "codes s" "[]" draws]
    by (cases "gen_loop (nat n) (upper cfg a1) clk (codes s) [] draws")
       (auto simp: gencode_admin [OF assms])
next
  fix r s'
  assume le: "n \<le> 50" and res: "gencode cfg clk draws caller (a0 # a1 # rest) s = Some (r, s')"
  from res le obtain cs g where loop: "gen_loop (nat n) (upper cfg a1) clk (codes s) [] draws = Some (cs, g)"
    and r: "r = Generated n g"
    and s': "s' = s\<lparr>codes := cs, disk_writes := disk_writes s @ [(CODES_FILE, Codes_doc cs)]\<rparr>"
    by (auto simp: gencode_admin [OF assms] split: option.splits)
  from gen_loop_Some [OF loop] obtain new where "g = new" "length new = nat n" "distinct new"
    "\<forall>k\<in>set new. map_of (codes s) k = None \<and> prefix (upper cfg a1) k"
    "cs = codes s @ zip new (map (\<lambda>i. new_code (clk i)) [0..<nat n])"
    by auto
  with r s' show "\<exists>new. r = Generated n new \<and> length new = nat n \<and> distinct new \<and>
             (\<forall>k\<in>set new. map_of (codes s) k = None \<and> prefix (upper cfg a1) k) \<and>
             codes s' = codes s @ zip new (map (\<lambda>i. new_code (clk i)) [0..<nat n]) \<and>
             s' = s\<lparr>codes := codes s', disk_writes := disk_writes s @ [(CODES_FILE, Codes_doc (codes s'))]\<rparr>"
    by simp
qed

text \<open>
  Claim C4, as the code has it. For the administrator and a count that parses to \<open>n\<close>:
  above 50 the answer is \<open>LimitExceeded\<close> and the state is unchanged. Up to 50, the
  handler returns exactly when the draws hold at least \<open>n\<close> different suffixes that give
  keys not stored yet (the retry loop has no bound); when it returns, it lists the
  \<open>n\<close> keys it created (none for a negative \<open>n\<close>), which are distinct, were absent
  before, begin with the upper-cased prefix, are appended to the codes in order with the
  sentinel prize, not redeemed, and are written to the codes file; nothing else changes.
\<close>

theorem gencode_creates_fresh_codes:
  assumes "is_admin cfg (tg_id caller)" and "py_int cfg a0 = Inr n"
  shows "(50 < n \<longrightarrow> gencode cfg clk draws caller (a0 # a1 # rest) s = Some (LimitExceeded, s)) \<and>
    (n \<le> 50 \<longrightarrow>
       (gencode cfg clk draws caller (a0 # a1 # rest) s = None \<longleftrightarrow>
          fresh_count (upper cfg a1) (codes s) draws < nat n) \<and>
       (\<forall>r s'. gencode cfg clk draws caller (a0 # a1 # rest) s = Some (r, s') \<longrightarrow>
          (\<exists>new. r = Generated n new \<and> length new = nat n \<and> distinct new \<and>
             (\<forall>k\<in>set new. map_of (codes s) k = None \<and> prefix (upper cfg a1) k) \<and>
             codes s' = codes s @ zip new (map (\<lambda>i. new_code (clk i)) [0..<nat n]) \<and>
             s' = s\<lparr>codes := codes s', disk_writes := disk_writes s @ [(CODES_FILE, Codes_doc (codes s'))]\<rparr>)))"
  using assms by (rule gencode_outcome)

theorem gencode_creates_fresh_codes_witness:
  "is_admin example_cfg (tg_id admin_user) \<and> py_int example_cfg ''2'' = Inr 2 \<and>
   \<not> fresh_count (upper example_cfg ''gift'') (codes state_with_code) [''AAAA'', ''AAAA'', ''BBBB''] < nat 2 \<and>
   gencode example_cfg example_clock [''AAAA'', ''AAAA'', ''BBBB''] admin_user [''2'', ''gift'']
     state_with_code \<noteq> None \<and>
   map_option fst (gencode example_cfg example_clock [''AAAA'', ''AAAA'', ''BBBB''] admin_user
     [''2'', ''gift''] state_with_code) = Some (Generated 2 [''GIFTAAAA'', ''GIFTBBBB'']) \<and>
   map_option (map fst \<circ> codes \<circ> snd) (gencode example_cfg example_clock
     [''AAAA'', ''AAAA'', ''BBBB''] admin_user [''2'', ''gift''] state_with_code) =
     Some [''ABC123'', ''GIFTAAAA'', ''GIFTBBBB''] \<and>
   gencode example_cfg example_clock [''AAAA'', ''AAAA''] admin_user [''2'', ''gift'']
     state_with_code = None \<and>
   gencode example_cfg example_clock [] admin_user [''51'', ''X''] state_with_code =
     Some (LimitExceeded, state_with_code)"
proof -
  have h1: "is_admin example_cfg (tg_id admin_user)"
    by code_simp
  have h2: "py_int example_cfg ''2'' = Inr 2"
    by code_simp
  have h3: "\<not> fresh_count (upper example_cfg ''gift'') (codes state_with_code) [''AAAA'', ''AAAA'', ''BBBB''] < nat 2"
    by code_simp
  have e: "map_option fst (gencode example_cfg example_clock [''AAAA'', ''AAAA'', ''BBBB''] admin_user
     [''2'', ''gift''] state_with_code) = Some (Generated 2 [''GIFTAAAA'', ''GIFTBBBB''])"
    "map_option (map fst \<circ> codes \<circ> snd) (gencode example_cfg example_clock
     [''AAAA'', ''AAAA'', ''BBBB''] admin_user [''2'', ''gift''] state_with_code) =
     Some [''ABC123'', ''GIFTAAAA'', ''GIFTBBBB'']"
    "gencode example_cfg example_clock [''AAAA'', ''AAAA''] admin_user [''2'', ''gift'']
     state_with_code = None"
    "gencode example_cfg example_clock [] admin_user [''51'', ''X''] state_with_code =
     Some (LimitExceeded, state_with_code)"
    by code_simp+
  from gencode_creates_fresh_codes [OF h1 h2, of example_clock "[''AAAA'', ''AAAA'', ''BBBB'']"
      "''gift''" "[]" state_with_code] h3
  have "gencode example_cfg example_clock [''AAAA'', ''AAAA'', ''BBBB''] admin_user [''2'', ''gift'']
     state_with_code \<noteq> None"
    by simp
  with h1 h2 h3 e show ?thesis by (intro conjI)
qed

text \<open>
  The claim as stated fails on the prefix: the keys begin with the upper-cased prefix,
  not with the prefix given.
\<close>

theorem gencode_prefix_counterexample:
  "map_option fst (gencode example_cfg example_clock [''AAAA''] admin_user [''1'', ''x'']
       initial_state) = Some (Generated 1 [''XAAAA'']) \<and>
   \<not> prefix ''x'' ''XAAAA''"
  by code_simp

subsection \<open>Records of the users and redeemers of the codes\<close>

lemma redeemed_by_append: "redeemed_by (cs @ ds) u = redeemed_by cs u + redeemed_by ds u"
  by (simp add: redeemed_by_def)

lemma redeemed_by_zero:
  assumes "\<And>k c r. (k, c) \<in> set cs \<Longrightarrow> redeemer c = Some r \<Longrightarrow> user_id r \<noteq> u"
  shows "redeemed_by cs u = 0"
proof -
  have "\<forall>x\<in>set cs. \<not> (case x of (k, c) \<Rightarrow>
          case redeemer c of None \<Rightarrow> False | Some r \<Rightarrow> user_id r = u)"
    using assms by (auto split: option.splits)
  then show ?thesis
    by (simp add: redeemed_by_def filter_empty_conv)
qed

lemma redeemed_by_map_entry_same:
  "(\<And>c. redeemer (f c) = redeemer c) \<Longrightarrow> redeemed_by (AList.map_entry k f cs) u = redeemed_by cs u"
  unfolding redeemed_by_def
  by (induction cs) (auto split: option.splits)

lemma redeemed_by_map_entry_claim:
  "map_of cs k = Some c \<Longrightarrow> redeemer c = None \<Longrightarrow>
   redeemed_by (AList.map_entry k (\<lambda>c. c\<lparr>redeemed := True, redeemer := Some r\<rparr>) cs) u =
     redeemed_by cs u + (if user_id r = u then 1 else 0)"
  unfolding redeemed_by_def
  by (induction cs) (auto split: option.splits if_splits)

lemma redeemed_by_delete:
  "distinct (map fst cs) \<Longrightarrow> map_of cs k = Some c \<Longrightarrow> redeemer c = None \<Longrightarrow>
   redeemed_by (AList.delete k cs) u = redeemed_by cs u"
proof (induction cs)
  case Nil
  then show ?case by simp
next
  case (Cons p cs)
  obtain a b where p: "p = (a, b)" by (cases p)
  show ?case
  proof (cases "a = k")
    case True
    with Cons.prems p have "b = c" "k \<notin> fst ` set cs" by auto
    with True p Cons.prems(3) show ?thesis
      by (simp add: redeemed_by_def)
  next
    case False
    with Cons.prems p have "distinct (map fst cs)" "map_of cs k = Some c" by auto
    from Cons.IH [OF this Cons.prems(3)] False p show ?thesis
      by (simp add: redeemed_by_def)
  qed
qed

lemma list_all_map_entry:
  "distinct (map fst xs) \<Longrightarrow> list_all P xs \<Longrightarrow>
   (\<And>a v. a \<noteq> k \<Longrightarrow> P (a, v) \<Longrightarrow> Q (a, v)) \<Longrightarrow> (\<And>v. P (k, v) \<Longrightarrow> Q (k, f v)) \<Longrightarrow>
   list_all Q (AList.map_entry k f xs)"
proof (induction xs)
  case Nil
  then show ?case by simp
next
  case (Cons p xs)
  obtain a b where p: "p = (a, b)" by (cases p)
  show ?case
  proof (cases "a = k")
    case True
    with Cons.prems(1) p have "\<forall>(a', v) \<in> set xs. a' \<noteq> k" by force
    with Cons.prems(2,3) have "list_all Q xs"
      by (auto simp: list_all_iff)
    with True p Cons.prems(2,4) show ?thesis by simp
  next
    case False
    with Cons.prems p have "list_all Q (AList.map_entry k f xs)"
      by (intro Cons.IH) auto
    with False p Cons.prems(2,3) show ?thesis by simp
  qed
qed


lemma consistent_cong:
  "codes s' = codes s \<Longrightarrow> users s' = users s \<Longrightarrow> consistent s' = consistent s"
  by (simp add: consistent_def cong del: option.case_cong_weak)

lemma consistentI:
  assumes "distinct (map fst (codes s))" and "distinct (map fst (users s))"
    and "\<And>k c. (k, c) \<in> set (codes s) \<Longrightarrow> redeemed c = (redeemer c \<noteq> None)"
    and "\<And>k c r. (k, c) \<in> set (codes s) \<Longrightarrow> redeemer c = Some r \<Longrightarrow>
           map_of (users s) (user_id r) \<noteq> None"
    and "\<And>uid u. (uid, u) \<in> set (users s) \<Longrightarrow>
           length (redeemed_codes u) = redeemed_by (codes s) uid"
  shows "consistent s"
  unfolding consistent_def list_all_iff
  using assms by (auto split: option.splits)

lemma consistentD:
  assumes "consistent s"
  shows "distinct (map fst (codes s))" and "distinct (map fst (users s))"
    and "\<And>k c. (k, c) \<in> set (codes s) \<Longrightarrow> redeemed c = (redeemer c \<noteq> None)"
    and "\<And>k c r. (k, c) \<in> set (codes s) \<Longrightarrow> redeemer c = Some r \<Longrightarrow>
           map_of (users s) (user_id r) \<noteq> None"
    and "\<And>uid u. (uid, u) \<in> set (users s) \<Longrightarrow>
           length (redeemed_codes u) = redeemed_by (codes s) uid"
proof -
  from assms show "distinct (map fst (codes s))" "distinct (map fst (users s))"
    by (simp_all add: consistent_def)
next
  fix k c
  assume "(k, c) \<in> set (codes s)"
  with assms show "redeemed c = (redeemer c \<noteq> None)"
    unfolding consistent_def list_all_iff by blast
next
  fix k c r
  assume "(k, c) \<in> set (codes s)" "redeemer c = Some r"
  with assms show "map_of (users s) (user_id r) \<noteq> None"
    unfolding consistent_def list_all_iff by fastforce
next
  fix uid u
  assume "(uid, u) \<in> set (users s)"
  with assms show "length (redeemed_codes u) = redeemed_by (codes s) uid"
    unfolding consistent_def list_all_iff by blast
qed

lemma register_user_consistent:
  assumes "consistent s"
  shows "consistent (register_user now u s)"
proof (cases "map_of (users s) (str_int (tg_id u))")
  case (Some r)
  with assms show ?thesis by (simp add: register_user_known)
next
  case None
  let ?uid = "str_int (tg_id u)"
  let ?s' = "register_user now u s"
  note D = consistentD [OF assms]
  from None have us: "users ?s' = users s @ [(?uid,
             \<lparr>username = or_NA (tg_username u), first_name = or_NA (tg_first_name u),
              last_name = or_NA (tg_last_name u), join_date = now, redeemed_codes = []\<rparr>)]"
    by (simp add: register_user_users)
  have cs: "codes ?s' = codes s"
    by (simp add: register_user_frame)
  from None have notin: "?uid \<notin> fst ` set (users s)"
    by (simp add: map_of_eq_None_iff)
  have zero: "redeemed_by (codes s) ?uid = 0"
  proof (rule redeemed_by_zero)
    fix k c r
    assume "(k, c) \<in> set (codes s)" "redeemer c = Some r"
    then have "map_of (users s) (user_id r) \<noteq> None" by (rule D(4))
    with None show "user_id r \<noteq> ?uid" by auto
  qed
  show ?thesis
  proof (rule consistentI)
    show "distinct (map fst (codes ?s'))" using D(1) cs by simp
    show "distinct (map fst (users ?s'))" using D(2) notin us by simp
  next
    fix k c
    assume "(k, c) \<in> set (codes ?s')"
    then show "redeemed c = (redeemer c \<noteq> None)" using D(3) cs by simp
  next
    fix k c r
    assume "(k, c) \<in> set (codes ?s')" "redeemer c = Some r"
    then have "map_of (users s) (user_id r) \<noteq> None" using D(4) cs by simp
    then show "map_of (users ?s') (user_id r) \<noteq> None"
      unfolding us by auto
  next
    fix uid r
    assume "(uid, r) \<in> set (users ?s')"
    then show "length (redeemed_codes r) = redeemed_by (codes ?s') uid"
      unfolding us cs using D(5) zero by auto
  qed
qed

lemma redeemed_state_consistent:
  assumes "consistent s" and look: "map_of (codes s) k = Some c" and nr: "\<not> redeemed c"
  shows "consistent (redeemed_state clk u k c s)"
proof -
  let ?uid = "str_int (tg_id u)"
  let ?snap = "redeemer_snapshot (clk 1) u"
  let ?f = "\<lambda>c. c\<lparr>redeemed := True, redeemer := Some ?snap\<rparr>"
  let ?g = "\<lambda>r. r\<lparr>redeemed_codes := redeemed_codes r @
                          [\<lparr>rc_code = k, rc_prize = prize c, rc_date = clk 2\<rparr>]\<rparr>"
  let ?s1 = "register_user (clk 0) u s"
  let ?s' = "redeemed_state clk u k c s"
  from assms(1) have "consistent ?s1" by (rule register_user_consistent)
  note D = consistentD [OF this]
  have cs1: "codes ?s1 = codes s" by (simp add: register_user_frame)
  have cs: "codes ?s' = AList.map_entry k ?f (codes s)"
    by (simp add: redeemed_state_def Let_def)
  have us: "users ?s' = AList.map_entry ?uid ?g (users ?s1)"
    by (simp add: redeemed_state_def Let_def)
  have dom: "map_of (users ?s') x \<noteq> None \<longleftrightarrow> map_of (users ?s1) x \<noteq> None" for x
    unfolding us by (simp add: map_of_map_entry split: option.splits)
  from register_user_present obtain r0 where r0: "map_of (users ?s1) ?uid = Some r0" by blast
  from look have mem: "(k, c) \<in> set (codes s)" by (rule map_of_SomeD)
  with D(3) [of k c] nr cs1 have none: "redeemer c = None" by simp
  have uid_snap: "user_id ?snap = ?uid" by (simp add: redeemer_snapshot_def)
  have count: "redeemed_by (codes ?s') x = redeemed_by (codes s) x + (if ?uid = x then 1 else 0)" for x
    unfolding cs using redeemed_by_map_entry_claim [OF look none, of ?snap x] uid_snap by simp
  show ?thesis
  proof (rule consistentI)
    show "distinct (map fst (codes ?s'))"
      unfolding cs using D(1) cs1 by (simp add: distinct_map_entry)
    show "distinct (map fst (users ?s'))"
      unfolding us using D(2) by (simp add: distinct_map_entry)
  next
    have "list_all (\<lambda>(a, v). redeemed v = (redeemer v \<noteq> None) \<and>
             (\<forall>r. redeemer v = Some r \<longrightarrow> map_of (users ?s') (user_id r) \<noteq> None))
           (AList.map_entry k ?f (codes s))"
    proof (rule list_all_map_entry [where P = "\<lambda>(a, v). redeemed v = (redeemer v \<noteq> None) \<and>
             (\<forall>r. redeemer v = Some r \<longrightarrow> map_of (users ?s1) (user_id r) \<noteq> None)"])
      show "distinct (map fst (codes s))" using D(1) cs1 by simp
      show "list_all (\<lambda>(a, v). redeemed v = (redeemer v \<noteq> None) \<and>
             (\<forall>r. redeemer v = Some r \<longrightarrow> map_of (users ?s1) (user_id r) \<noteq> None)) (codes s)"
        unfolding list_all_iff using D(3,4) cs1 by auto
    next
      fix a v
      assume "case (a, v) of (a, v) \<Rightarrow> redeemed v = (redeemer v \<noteq> None) \<and>
             (\<forall>r. redeemer v = Some r \<longrightarrow> map_of (users ?s1) (user_id r) \<noteq> None)"
      then show "case (a, v) of (a, v) \<Rightarrow> redeemed v = (redeemer v \<noteq> None) \<and>
             (\<forall>r. redeemer v = Some r \<longrightarrow> map_of (users ?s') (user_id r) \<noteq> None)"
        using dom by simp
    next
      fix v
      show "case (k, ?f v) of (a, v) \<Rightarrow> redeemed v = (redeemer v \<noteq> None) \<and>
             (\<forall>r. redeemer v = Some r \<longrightarrow> map_of (users ?s') (user_id r) \<noteq> None)"
        using dom [of ?uid] r0 uid_snap by simp
    qed
    then have R: "\<forall>(a, v) \<in> set (codes ?s'). redeemed v = (redeemer v \<noteq> None) \<and>
             (\<forall>r. redeemer v = Some r \<longrightarrow> map_of (users ?s') (user_id r) \<noteq> None)"
      unfolding cs list_all_iff .
    {
      fix a v
      assume "(a, v) \<in> set (codes ?s')"
      with R show "redeemed v = (redeemer v \<noteq> None)" by blast
    }
    {
      fix a v r
      assume "(a, v) \<in> set (codes ?s')" "redeemer v = Some r"
      with R show "map_of (users ?s') (user_id r) \<noteq> None" by blast
    }
  next
    have "list_all (\<lambda>(a, v). length (redeemed_codes v) = redeemed_by (codes ?s') a)
            (AList.map_entry ?uid ?g (users ?s1))"
    proof (rule list_all_map_entry [where P = "\<lambda>(a, v). length (redeemed_codes v) = redeemed_by (codes s) a"])
      show "distinct (map fst (users ?s1))" by (rule D(2))
      show "list_all (\<lambda>(a, v). length (redeemed_codes v) = redeemed_by (codes s) a) (users ?s1)"
        unfolding list_all_iff using D(5) cs1 by auto
    next
      fix a v
      assume "a \<noteq> ?uid" "case (a, v) of (a, v) \<Rightarrow> length (redeemed_codes v) = redeemed_by (codes s) a"
      then show "case (a, v) of (a, v) \<Rightarrow> length (redeemed_codes v) = redeemed_by (codes ?s') a"
        using count [of a] by simp
    next
      fix v
      assume "case (?uid, v) of (a, v) \<Rightarrow> length (redeemed_codes v) = redeemed_by (codes s) a"
      then show "case (?uid, ?g v) of (a, v) \<Rightarrow> length (redeemed_codes v) = redeemed_by (codes ?s') a"
        using count [of ?uid] by simp
    qed
    then have L: "\<forall>(a, v) \<in> set (users ?s'). length (redeemed_codes v) = redeemed_by (codes ?s') a"
      unfolding us list_all_iff .
    fix uid r
    assume "(uid, r) \<in> set (users ?s')"
    with L show "length (redeemed_codes r) = redeemed_by (codes ?s') uid" by blast
  qed
qed


lemma append_new_codes_consistent:
  assumes "consistent s" and dist: "distinct (map fst (codes s) @ map fst new)"
    and fresh: "\<And>k c. (k, c) \<in> set new \<Longrightarrow> \<not> redeemed c \<and> redeemer c = None"
    and cs: "codes s' = codes s @ new" and us: "users s' = users s"
  shows "consistent s'"
proof (rule consistentI)
  note D = consistentD [OF assms(1)]
  show "distinct (map fst (codes s'))" using dist cs by simp
  show "distinct (map fst (users s'))" using D(2) us by simp
  {
    fix k c
    assume "(k, c) \<in> set (codes s')"
    then show "redeemed c = (redeemer c \<noteq> None)"
      unfolding cs using D(3) fresh by auto
  }
  {
    fix k c r
    assume "(k, c) \<in> set (codes s')" "redeemer c = Some r"
    then show "map_of (users s') (user_id r) \<noteq> None"
      unfolding cs us using D(4) fresh by auto
  }
  {
    fix uid u
    assume "(uid, u) \<in> set (users s')"
    moreover have "redeemed_by new uid = 0"
      by (rule redeemed_by_zero) (use fresh in auto)
    ultimately show "length (redeemed_codes u) = redeemed_by (codes s') uid"
      unfolding cs us using D(5) by (simp add: redeemed_by_append)
  }
qed

lemma addcode_consistent:
  assumes "consistent s"
  shows "consistent (snd (addcode cfg clk u args s))"
proof (cases "is_admin cfg (tg_id u) \<and> args \<noteq> [] \<and> map_of (codes s) (upper cfg (hd args)) = None")
  case False
  then have "snd (addcode cfg clk u args s) = s"
    by (cases args) (auto simp: addcode_def Let_def)
  with assms show ?thesis by simp
next
  case True
  then obtain a rest where args: "args = a # rest" by (cases args) auto
  let ?s' = "snd (addcode cfg clk u args s)"
  from True args have absent: "map_of (codes s) (upper cfg a) = None" by simp
  with True args have cs: "codes ?s' = codes s @ [(upper cfg a, new_code (clk 0))]"
    and us: "users ?s' = users s"
    by (simp_all add: addcode_def Let_def save_data_def update_absent)
  from absent have "upper cfg a \<notin> fst ` set (codes s)"
    by (simp add: map_of_eq_None_iff)
  with consistentD(1) [OF assms]
  have "distinct (map fst (codes s) @ map fst [(upper cfg a, new_code (clk 0))])"
    by simp
  from append_new_codes_consistent [OF assms this _ cs us] show ?thesis
    by (simp add: new_code_def)
qed

lemma addprize_consistent:
  assumes "consistent s"
  shows "consistent (snd (addprize cfg u args s))"
proof (cases "is_admin cfg (tg_id u) \<and> \<not> length args < 2 \<and> map_of (codes s) (upper cfg (hd args)) \<noteq> None")
  case False
  then have "snd (addprize cfg u args s) = s"
    by (auto simp: addprize_def Let_def)
  with assms show ?thesis by simp
next
  case True
  let ?s' = "snd (addprize cfg u args s)"
  let ?k = "upper cfg (hd args)"
  let ?f = "\<lambda>c. c\<lparr>prize := join_spaces (tl args)\<rparr>"
  note D = consistentD [OF assms]
  from True have cs: "codes ?s' = AList.map_entry ?k ?f (codes s)" and us: "users ?s' = users s"
    by (auto simp: addprize_def Let_def save_data_def)
  have "list_all (\<lambda>(a, v). redeemed v = (redeemer v \<noteq> None) \<and>
             (\<forall>r. redeemer v = Some r \<longrightarrow> map_of (users s) (user_id r) \<noteq> None))
           (AList.map_entry ?k ?f (codes s))"
  proof (rule list_all_map_entry [where P = "\<lambda>(a, v). redeemed v = (redeemer v \<noteq> None) \<and>
             (\<forall>r. redeemer v = Some r \<longrightarrow> map_of (users s) (user_id r) \<noteq> None)"])
    show "distinct (map fst (codes s))" by (rule D(1))
    show "list_all (\<lambda>(a, v). redeemed v = (redeemer v \<noteq> None) \<and>
             (\<forall>r. redeemer v = Some r \<longrightarrow> map_of (users s) (user_id r) \<noteq> None)) (codes s)"
      unfolding list_all_iff using D(3,4) by auto
  qed simp_all
  then have R: "\<forall>(a, v) \<in> set (codes ?s'). redeemed v = (redeemer v \<noteq> None) \<and>
             (\<forall>r. redeemer v = Some r \<longrightarrow> map_of (users s) (user_id r) \<noteq> None)"
    unfolding cs list_all_iff .
  show ?thesis
  proof (rule consistentI)
    show "distinct (map fst (codes ?s'))" unfolding cs using D(1) by (simp add: distinct_map_entry)
    show "distinct (map fst (users ?s'))" unfolding us by (rule D(2))
    {
      fix k c
      assume "(k, c) \<in> set (codes ?s')"
      with R show "redeemed c = (redeemer c \<noteq> None)" by blast
    }
    {
      fix k c r
      assume "(k, c) \<in> set (codes ?s')" "redeemer c = Some r"
      with R show "map_of (users ?s') (user_id r) \<noteq> None" unfolding us by blast
    }
    {
      fix uid r
      assume "(uid, r) \<in> set (users ?s')"
      then show "length (redeemed_codes r) = redeemed_by (codes ?s') uid"
        unfolding us cs using D(5) by (simp add: redeemed_by_map_entry_same)
    }
  qed
qed

lemma delcode_consistent:
  assumes "consistent s" and "\<not> deletes_redeemed cfg (Delcode u args) s"
  shows "consistent (snd (delcode cfg u args s))"
proof (cases "is_admin cfg (tg_id u) \<and> args \<noteq> [] \<and> map_of (codes s) (upper cfg (hd args)) \<noteq> None")
  case False
  then have "snd (delcode cfg u args s) = s"
    by (cases args) (auto simp: delcode_def Let_def)
  with assms show ?thesis by simp
next
  case True
  then obtain a rest c where args: "args = a # rest" and look: "map_of (codes s) (upper cfg a) = Some c"
    by (cases args) auto
  let ?s' = "snd (delcode cfg u args s)"
  note D = consistentD [OF assms(1)]
  from True args assms(2) look have "\<not> redeemed c" by simp
  with D(3) [OF map_of_SomeD [OF look]] have none: "redeemer c = None" by simp
  from True args look have cs: "codes ?s' = AList.delete (upper cfg a) (codes s)"
    and us: "users ?s' = users s"
    by (simp_all add: delcode_def Let_def save_data_def)
  have sub: "set (codes ?s') \<subseteq> set (codes s)"
    unfolding cs by (auto simp: AList.delete_eq)
  show ?thesis
  proof (rule consistentI)
    show "distinct (map fst (codes ?s'))" unfolding cs using D(1) by (rule distinct_delete)
    show "distinct (map fst (users ?s'))" unfolding us by (rule D(2))
    {
      fix k c
      assume "(k, c) \<in> set (codes ?s')"
      with sub D(3) show "redeemed c = (redeemer c \<noteq> None)" by blast
    }
    {
      fix k c r
      assume "(k, c) \<in> set (codes ?s')" "redeemer c = Some r"
      with sub D(4) show "map_of (users ?s') (user_id r) \<noteq> None" unfolding us by blast
    }
    {
      fix uid r
      assume "(uid, r) \<in> set (users ?s')"
      then show "length (redeemed_codes r) = redeemed_by (codes ?s') uid"
        unfolding us cs using D(5) redeemed_by_delete [OF D(1) look none] by simp
    }
  qed
qed

lemma map_fst_map_snd: "map fst (map (\<lambda>(k, v). (k, f v)) xs) = map fst xs"
  by (induction xs) auto

lemma resetgiveaway_consistent:
  assumes "consistent s"
  shows "consistent (snd (resetgiveaway cfg u s))"
proof (cases "is_admin cfg (tg_id u)")
  case False
  then have "snd (resetgiveaway cfg u s) = s"
    by (simp add: resetgiveaway_def)
  with assms show ?thesis by simp
next
  case True
  let ?s' = "snd (resetgiveaway cfg u s)"
  note D = consistentD [OF assms]
  from resetgiveaway_admin [OF True, of s]
  have cs: "codes ?s' = map (\<lambda>(k, c). (k, c\<lparr>redeemed := False, redeemer := None\<rparr>)) (codes s)"
    and us: "users ?s' = map (\<lambda>(k, u). (k, u\<lparr>redeemed_codes := []\<rparr>)) (users s)"
    by simp_all
  have none: "\<not> redeemed c \<and> redeemer c = None" if "(k, c) \<in> set (codes ?s')" for k c
    using that unfolding cs by auto
  show ?thesis
  proof (rule consistentI)
    show "distinct (map fst (codes ?s'))" unfolding cs map_fst_map_snd by (rule D(1))
    show "distinct (map fst (users ?s'))" unfolding us map_fst_map_snd by (rule D(2))
    {
      fix k c
      assume "(k, c) \<in> set (codes ?s')"
      with none show "redeemed c = (redeemer c \<noteq> None)" by simp
    }
    {
      fix k c r
      assume "(k, c) \<in> set (codes ?s')" "redeemer c = Some r"
      with none show "map_of (users ?s') (user_id r) \<noteq> None" by simp
    }
    {
      fix uid r
      assume "(uid, r) \<in> set (users ?s')"
      then have "redeemed_codes r = []" unfolding us by auto
      moreover have "redeemed_by (codes ?s') uid = 0"
        by (rule redeemed_by_zero) (use none in auto)
      ultimately show "length (redeemed_codes r) = redeemed_by (codes ?s') uid" by simp
    }
  qed
qed


lemma gencode_consistent:
  assumes "consistent s" and "gencode cfg clk ds u args s = Some (r, s')"
  shows "consistent s'"
proof (cases "is_admin cfg (tg_id u) \<and> \<not> length args < 2")
  case False
  with assms(2) have "s' = s"
    by (auto simp: gencode_def split: if_splits)
  with assms(1) show ?thesis by simp
next
  case True
  then obtain a0 a1 rest where args: "args = a0 # a1 # rest"
    by (cases args; cases "tl args") auto
  show ?thesis
  proof (cases "py_int cfg a0")
    case (Inl e)
    with True args assms(2) have "s' = s"
      by (simp add: gencode_def split: if_splits)
    with assms(1) show ?thesis by simp
  next
    case (Inr n)
    from True have adm: "is_admin cfg (tg_id u)" by simp
    note G = gencode_outcome [OF adm Inr, of clk ds a1 rest s]
    show ?thesis
    proof (cases "50 < n")
      case True
      with G assms(2) args have "s' = s" by simp
      with assms(1) show ?thesis by simp
    next
      case False
      with G assms(2) args obtain new where len: "length new = nat n" and dist: "distinct new"
        and fresh: "\<forall>k\<in>set new. map_of (codes s) k = None \<and> prefix (upper cfg a1) k"
        and cs: "codes s' = codes s @ zip new (map (\<lambda>i. new_code (clk i)) [0..<nat n])"
        and s': "s' = s\<lparr>codes := codes s', disk_writes := disk_writes s @ [(CODES_FILE, Codes_doc (codes s'))]\<rparr>"
        by force
      let ?new = "zip new (map (\<lambda>i. new_code (clk i)) [0..<nat n])"
      from len have keys: "map fst ?new = new" by simp
      from fresh have "set new \<inter> fst ` set (codes s) = {}"
        by (auto simp: map_of_eq_None_iff)
      with consistentD(1) [OF assms(1)] dist keys
      have d: "distinct (map fst (codes s) @ map fst ?new)" by auto
      have f: "\<not> redeemed c \<and> redeemer c = None" if "(k, c) \<in> set ?new" for k c
        using set_zip_rightD [OF that] by (auto simp: new_code_def)
      from s' have us: "users s' = users s"
        by (metis state.select_convs(2) state.surjective state.update_convs(1,4))
      from append_new_codes_consistent [OF assms(1) d f cs us] show ?thesis .
    qed
  qed
qed

lemma step_consistent:
  assumes "consistent s" and "\<not> deletes_redeemed cfg c s" and "step cfg c s = Some (r, s')"
  shows "consistent s'"
proof (cases c)
  case (Start clk u)
  with assms register_user_consistent [OF assms(1), of "clk 0" u] show ?thesis
    by (auto simp: start_def split: if_splits)
next
  case (Redeem clk u args)
  from assms(1) have "consistent (snd (redeem cfg clk u args s))"
  proof (cases rule: redeem_cases [of s u cfg clk args])
    case (success a rest c)
    with redeemed_state_consistent [OF assms(1) success(3,4), of clk u] show ?thesis by simp
  qed (use register_user_consistent [OF assms(1), of "clk 0" u] assms(1) in simp_all)
  with Redeem assms(3) show ?thesis by auto
next
  case (Stats u)
  with assms stats_state [of cfg u s] show ?thesis by auto
next
  case (Addcode clk u args)
  with assms addcode_consistent [OF assms(1), of cfg clk u args] show ?thesis by auto
next
  case (Addprize u args)
  with assms addprize_consistent [OF assms(1), of cfg u args] show ?thesis by auto
next
  case (Delcode u args)
  with assms delcode_consistent [OF assms(1), of cfg u args] show ?thesis by auto
next
  case (Gencode clk ds u args)
  with assms gencode_consistent [OF assms(1), of cfg clk ds u args r s'] show ?thesis by auto
next
  case (Ban u args)
  have "consistent (snd (ban_user cfg u args s)) = consistent s"
    by (rule consistent_cong)
       (simp_all add: ban_user_def Let_def save_data_def str_str_def split: list.split)
  with Ban assms show ?thesis by auto
next
  case (Unban u args)
  have "consistent (snd (unban_user cfg u args s)) = consistent s"
    by (rule consistent_cong)
       (simp_all add: unban_user_def Let_def save_data_def str_str_def split: list.split)
  with Unban assms show ?thesis by auto
next
  case (Resetgiveaway u)
  with assms resetgiveaway_consistent [OF assms(1), of cfg u] show ?thesis by auto
qed

lemma run_consistent:
  "consistent s \<Longrightarrow> spares_redeemed cfg cs s \<Longrightarrow> run cfg cs s = Some s' \<Longrightarrow> consistent s'"
proof (induction cs arbitrary: s)
  case Nil
  then show ?case by simp
next
  case (Cons c cs)
  from Cons.prems(3) obtain r s1 where st: "step cfg c s = Some (r, s1)"
    and rest: "run cfg cs s1 = Some s'"
    by (auto split: option.splits)
  from Cons.prems(2) st have safe: "\<not> deletes_redeemed cfg c s" and srest: "spares_redeemed cfg cs s1"
    by simp_all
  from step_consistent [OF Cons.prems(1) safe st] have "consistent s1" .
  from Cons.IH [OF this srest rest] show ?case .
qed

text \<open>
  Claim C2, as the code has it. Starting from documents that agree (the empty ones do),
  after any sequence of commands in which no \<open>delcode\<close> removes a redeemed code, the
  documents agree again: every stored user has as many redemption records as there are
  codes whose redeemer has that user's id.
\<close>

theorem records_match_codes:
  assumes "consistent s" and "spares_redeemed cfg cmds s" and "run cfg cmds s = Some s'"
    and "map_of (users s') uid = Some u"
  shows "consistent s' \<and> length (redeemed_codes u) = redeemed_by (codes s') uid"
proof -
  from run_consistent [OF assms(1,2,3)] have c: "consistent s'" .
  from assms(4) have "(uid, u) \<in> set (users s')" by (rule map_of_SomeD)
  with consistentD(5) [OF c] c show ?thesis by simp
qed

theorem records_match_codes_witness:
  "consistent initial_state \<and> spares_redeemed example_cfg example_run initial_state \<and>
   run example_cfg example_run initial_state = Some state_after_run \<and>
   map_of (users state_after_run) ''43'' =
     Some \<lparr>username = ''N/A'', first_name = ''Bob'', last_name = ''Ray'', join_date = ''t0'',
           redeemed_codes = [\<lparr>rc_code = ''GIFTBBBB'', rc_prize = ''No prize set'',
                              rc_date = ''t2''\<rparr>]\<rparr> \<and>
   redeemed_by (codes state_after_run) ''43'' = 1 \<and>
   map fst (codes state_after_run) = [''ABC123'', ''GIFTAAAA'', ''GIFTBBBB''] \<and>
   consistent state_after_run"
proof -
  have h1: "consistent initial_state"
    by code_simp
  have h2: "spares_redeemed example_cfg example_run initial_state"
    by code_simp
  have h3: "run example_cfg example_run initial_state = Some state_after_run"
    by code_simp
  have h4: "map_of (users state_after_run) ''43'' =
     Some \<lparr>username = ''N/A'', first_name = ''Bob'', last_name = ''Ray'', join_date = ''t0'',
           redeemed_codes = [\<lparr>rc_code = ''GIFTBBBB'', rc_prize = ''No prize set'',
                              rc_date = ''t2''\<rparr>]\<rparr>"
    by code_simp
  have e: "map fst (codes state_after_run) = [''ABC123'', ''GIFTAAAA'', ''GIFTBBBB'']"
    by code_simp
  from records_match_codes [OF h1 h2 h3 h4]
  have "consistent state_after_run \<and> redeemed_by (codes state_after_run) ''43'' = 1"
    by simp
  with h1 h2 h3 h4 e show ?thesis by (intro conjI) simp_all
qed

text \<open>
  The claim as stated fails when \<open>delcode\<close> removes a redeemed code: the code goes, the
  user's record stays.
\<close>

theorem records_match_codes_counterexample:
  "run example_cfg
     [Addcode example_clock admin_user [''abc123''], Redeem example_clock user42 [''abc123''],
      Delcode admin_user [''ABC123'']] initial_state = Some state_deleted \<and>
   map_option (\<lambda>u. length (redeemed_codes u)) (map_of (users state_deleted) ''42'') = Some 1 \<and>
   redeemed_by (codes state_deleted) ''42'' = 0"
  by code_simp

end
